theory Spec2Isabelle
  imports Main
begin

section \<open>The Ludo rules engine of \<^verbatim>\<open>expense-tracker.py\<close>\<close>

text \<open>
  A shallow embedding of the second half of the source file (``ludo game project.py''):
  the classes \<^verbatim>\<open>Token\<close>, \<^verbatim>\<open>Player\<close> and \<^verbatim>\<open>Game\<close>. Python integers are \<open>int\<close>;
  indices into lists that come from \<^verbatim>\<open>range\<close> are \<open>nat\<close>. Objects that Python shares by
  reference are addressed by where they live: a player by its index in \<^verbatim>\<open>Game.players\<close>, a
  token by its index in \<^verbatim>\<open>Player.tokens\<close>. Exceptions are values of type \<open>error\<close>.
  Printing is left out; the die and the lines typed by a human are inputs.
\<close>

subsection \<open>Constants\<close>

datatype error = KeyError | IndexError | AssertionError | EOFError | ValueError

definition OUTER_TRACK :: int where
  "OUTER_TRACK = 52"

definition HOME_STRETCH :: int where
  "HOME_STRETCH = 6"

definition TOKENS_PER_PLAYER :: nat where
  "TOKENS_PER_PLAYER = 4"

definition SAFE_SQUARES :: "int set" where
  "SAFE_SQUARES = {0, 8, 13, 21, 26, 34, 39, 47}"

definition COLORS :: "string list" where
  "COLORS = [''Red'', ''Green'', ''Yellow'', ''Blue'']"

text \<open>The dictionary \<^verbatim>\<open>START_SQUARE\<close>; a key outside 0..3 is absent.\<close>

definition START_SQUARE :: "nat \<rightharpoonup> int" where
  "START_SQUARE = map_of [(0, 0), (1, 13), (2, 26), (3, 39)]"

text \<open>\<^verbatim>\<open>HOME_ENTRY = {p: (START_SQUARE[p] - 1) % OUTER_TRACK for p in START_SQUARE}\<close>\<close>

definition HOME_ENTRY :: "nat \<rightharpoonup> int" where
  "HOME_ENTRY p = map_option (\<lambda>s. (s - 1) mod OUTER_TRACK) (START_SQUARE p)"

text \<open>Subscripting a dictionary raises \<^verbatim>\<open>KeyError\<close> on an absent key.\<close>

definition subscript :: "('k \<rightharpoonup> 'v) \<Rightarrow> 'k \<Rightarrow> error + 'v" where
  "subscript d k = (case d k of None \<Rightarrow> Inl KeyError | Some v \<Rightarrow> Inr v)"

subsection \<open>Token and Player\<close>

record token =
  player_idx :: nat
  token_idx :: nat
  position :: int
  finished :: bool

definition Token :: "nat \<Rightarrow> nat \<Rightarrow> token" where
  "Token p i = \<lparr>player_idx = p, token_idx = i, position = - 1, finished = False\<rparr>"

definition is_in_yard :: "token \<Rightarrow> bool" where
  "is_in_yard t \<longleftrightarrow> position t = - 1"

definition is_on_board :: "token \<Rightarrow> bool" where
  "is_on_board t \<longleftrightarrow> position t \<ge> 0 \<and> \<not> finished t"

record player =
  idx :: nat
  name :: string
  color :: string
  tokens :: "token list"
  is_cpu :: bool

definition Player :: "nat \<Rightarrow> string \<Rightarrow> bool \<Rightarrow> error + player" where
  "Player i nm cpu =
     (if i < length COLORS
      then Inr \<lparr>idx = i, name = nm, color = COLORS ! i,
                tokens = map (Token i) [0..<TOKENS_PER_PLAYER], is_cpu = cpu\<rparr>
      else Inl IndexError)"

definition tokens_finished :: "player \<Rightarrow> token list" where
  "tokens_finished p = filter finished (tokens p)"

definition all_finished :: "player \<Rightarrow> bool" where
  "all_finished p \<longleftrightarrow> length (tokens_finished p) = TOKENS_PER_PLAYER"

subsection \<open>Game: construction and board geometry\<close>

text \<open>\<open>winner_order\<close> holds references to players: their indices in \<open>players\<close>.\<close>

record game =
  num_players :: nat
  players :: "player list"
  turn :: nat
  winner_order :: "nat list"

text \<open>The list comprehension of the constructor, with \<^verbatim>\<open>cpu_players[i]\<close> checked.\<close>

fun make_players :: "nat list \<Rightarrow> bool list \<Rightarrow> error + player list" where
  "make_players [] cpus = Inr []"
| "make_players (i # is) cpus =
     (if i < length cpus then
        (case Player i (''Player-'' @ [char_of (48 + i + 1)]) (cpus ! i) of
           Inl e \<Rightarrow> Inl e
         | Inr p \<Rightarrow> (case make_players is cpus of
                      Inl e \<Rightarrow> Inl e
                    | Inr ps \<Rightarrow> Inr (p # ps)))
      else Inl IndexError)"

definition Game :: "nat \<Rightarrow> bool list option \<Rightarrow> error + game" where
  "Game n cpu_players =
     (if \<not> (2 \<le> n \<and> n \<le> 4) then Inl AssertionError
      else
        let cpus = (case cpu_players of None \<Rightarrow> replicate n False | Some cs \<Rightarrow> cs) in
        (case make_players [0..<n] cpus of
           Inl e \<Rightarrow> Inl e
         | Inr ps \<Rightarrow> Inr \<lparr>num_players = n, players = ps, turn = 0, winner_order = []\<rparr>))"

definition position_is_safe :: "int \<Rightarrow> nat option \<Rightarrow> error + bool" where
  "position_is_safe pos pidx =
     (if pos < 0 \<or> pos \<ge> OUTER_TRACK then Inr False
      else if pos \<in> SAFE_SQUARES then Inr True
      else (case pidx of
              None \<Rightarrow> Inr False
            | Some p \<Rightarrow> (case subscript START_SQUARE p of
                          Inl e \<Rightarrow> Inl e
                        | Inr s \<Rightarrow> Inr (pos = s))))"

definition local_distance_to_home_entry :: "nat \<Rightarrow> int \<Rightarrow> error + int" where
  "local_distance_to_home_entry pidx pos =
     (if pos < 0 \<or> pos \<ge> OUTER_TRACK then Inr 0
      else (case subscript HOME_ENTRY pidx of
              Inl e \<Rightarrow> Inl e
            | Inr entry \<Rightarrow>
                if pos \<le> entry then Inr (entry - pos)
                else Inr (OUTER_TRACK - (pos - entry))))"

definition can_move_token :: "player \<Rightarrow> token \<Rightarrow> int \<Rightarrow> error + bool" where
  "can_move_token pl tok roll =
     (if finished tok then Inr False
      else if is_in_yard tok then Inr (roll = 6)
      else if 0 \<le> position tok \<and> position tok < OUTER_TRACK then
        (case local_distance_to_home_entry (idx pl) (position tok) of
           Inl e \<Rightarrow> Inl e
         | Inr steps_to_entry \<Rightarrow>
             if roll \<le> steps_to_entry then Inr True
             else let over = roll - steps_to_entry - 1 in Inr (over < HOME_STRETCH))
      else if position tok \<ge> OUTER_TRACK then
        (let rel = position tok - OUTER_TRACK in Inr (rel + roll < HOME_STRETCH))
      else Inr False)"

subsection \<open>Moving a token and capturing\<close>

text \<open>Writing the token object that lives at index \<open>k\<close> of player \<open>p\<close>.\<close>

definition set_token :: "game \<Rightarrow> nat \<Rightarrow> nat \<Rightarrow> token \<Rightarrow> game" where
  "set_token g p k t =
     g\<lparr>players := (players g)[p := (players g ! p)\<lparr>tokens := (tokens (players g ! p))[k := t]\<rparr>]\<rparr>"

text \<open>
  \<^verbatim>\<open>handle_capture\<close>: the two nested loops visit every token of every player once and
  write only the token visited, so they are two maps.
\<close>

definition capture_token :: "int \<Rightarrow> token \<Rightarrow> token" where
  "capture_token pos tok =
     (if is_on_board tok \<and> position tok = pos then tok\<lparr>position := - 1\<rparr> else tok)"

definition capture_all :: "game \<Rightarrow> player \<Rightarrow> int \<Rightarrow> game" where
  "capture_all g pl pos =
     g\<lparr>players :=
         map (\<lambda>q. if idx q = idx pl then q
                  else q\<lparr>tokens := map (capture_token pos) (tokens q)\<rparr>)
             (players g)\<rparr>"

definition handle_capture :: "game \<Rightarrow> player \<Rightarrow> token \<Rightarrow> error + game" where
  "handle_capture g pl moved_token =
     (let pos = position moved_token in
      if pos < 0 \<or> pos \<ge> OUTER_TRACK then Inr g
      else (case position_is_safe pos (Some (idx pl)) of
              Inl e \<Rightarrow> Inl e
            | Inr True \<Rightarrow> Inr g
            | Inr False \<Rightarrow> Inr (capture_all g pl pos)))"

text \<open>
  \<^verbatim>\<open>move_token(player, token, roll)\<close>, with \<open>player = players[p]\<close> and
  \<open>token = player.tokens[k]\<close>.
\<close>

definition move_token :: "game \<Rightarrow> nat \<Rightarrow> nat \<Rightarrow> int \<Rightarrow> error + game" where
  "move_token g p k roll =
     (if p \<ge> length (players g) then Inl IndexError
      else let pl = players g ! p in
      if k \<ge> length (tokens pl) then Inl IndexError
      else let tok = tokens pl ! k in
      if is_in_yard tok then
        (case subscript START_SQUARE (idx pl) of
           Inl e \<Rightarrow> Inl e
         | Inr s \<Rightarrow>
             let tok' = tok\<lparr>position := s\<rparr>
             in handle_capture (set_token g p k tok') pl tok')
      else if 0 \<le> position tok \<and> position tok < OUTER_TRACK then
        (case local_distance_to_home_entry (idx pl) (position tok) of
           Inl e \<Rightarrow> Inl e
         | Inr steps_to_entry \<Rightarrow>
             if roll \<le> steps_to_entry then
               let new_pos = (position tok + roll) mod OUTER_TRACK;
                   tok' = tok\<lparr>position := new_pos\<rparr>
               in handle_capture (set_token g p k tok') pl tok'
             else
               let over = roll - steps_to_entry - 1;
                   tok' = tok\<lparr>position := OUTER_TRACK + over\<rparr>;
                   tok'' = (if position tok' - OUTER_TRACK = HOME_STRETCH - 1
                            then tok'\<lparr>finished := True\<rparr> else tok')
               in Inr (set_token g p k tok''))
      else if position tok \<ge> OUTER_TRACK then
        (let rel = position tok - OUTER_TRACK;
             new_rel = rel + roll
         in if new_rel = HOME_STRETCH - 1 then
              Inr (set_token g p k (tok\<lparr>position := OUTER_TRACK + new_rel, finished := True\<rparr>))
            else if new_rel < HOME_STRETCH - 1 then
              Inr (set_token g p k (tok\<lparr>position := OUTER_TRACK + new_rel\<rparr>))
            else Inr g)
      else Inr g)"

subsection \<open>Choosing a token\<close>

fun any_moves_available_from :: "player \<Rightarrow> int \<Rightarrow> token list \<Rightarrow> error + bool" where
  "any_moves_available_from pl roll [] = Inr False"
| "any_moves_available_from pl roll (tok # rest) =
     (case can_move_token pl tok roll of
        Inl e \<Rightarrow> Inl e
      | Inr True \<Rightarrow> Inr True
      | Inr False \<Rightarrow> any_moves_available_from pl roll rest)"

definition any_moves_available :: "player \<Rightarrow> int \<Rightarrow> error + bool" where
  "any_moves_available pl roll = any_moves_available_from pl roll (tokens pl)"

text \<open>
  \<^verbatim>\<open>movable = [t for t in player.tokens if self.can_move_token(player, t, roll)]\<close>,
  as the list of the tokens' indices.
\<close>

fun movable_from :: "player \<Rightarrow> int \<Rightarrow> nat list \<Rightarrow> error + nat list" where
  "movable_from pl roll [] = Inr []"
| "movable_from pl roll (k # ks) =
     (case can_move_token pl (tokens pl ! k) roll of
        Inl e \<Rightarrow> Inl e
      | Inr b \<Rightarrow> (case movable_from pl roll ks of
                   Inl e \<Rightarrow> Inl e
                 | Inr ms \<Rightarrow> Inr (if b then k # ms else ms)))"

definition movable_tokens :: "player \<Rightarrow> int \<Rightarrow> error + nat list" where
  "movable_tokens pl roll = movable_from pl roll [0..<length (tokens pl)]"

text \<open>Step 1 of the CPU heuristic: the test for a finishing move.\<close>

definition finishing_test :: "token \<Rightarrow> int \<Rightarrow> bool" where
  "finishing_test t roll \<longleftrightarrow>
     position t \<ge> OUTER_TRACK \<and> (position t - OUTER_TRACK) + roll = HOME_STRETCH - 1"

text \<open>Step 2: the destination \<^verbatim>\<open>dest\<close> computed for a movable token.\<close>

definition capture_dest :: "player \<Rightarrow> token \<Rightarrow> int \<Rightarrow> error + int" where
  "capture_dest pl t roll =
     (if is_in_yard t then subscript START_SQUARE (idx pl)
      else if 0 \<le> position t \<and> position t < OUTER_TRACK then
        (case local_distance_to_home_entry (idx pl) (position t) of
           Inl e \<Rightarrow> Inl e
         | Inr steps_to_entry \<Rightarrow>
             if roll \<le> steps_to_entry then Inr ((position t + roll) mod OUTER_TRACK)
             else Inr (OUTER_TRACK + (roll - steps_to_entry - 1)))
      else Inr (position t + roll))"

definition opponent_at :: "game \<Rightarrow> player \<Rightarrow> int \<Rightarrow> bool" where
  "opponent_at g pl dest \<longleftrightarrow>
     list_ex (\<lambda>q. idx q \<noteq> idx pl \<and>
                  list_ex (\<lambda>tok. is_on_board tok \<and> position tok = dest) (tokens q))
             (players g)"

fun capture_choice :: "game \<Rightarrow> player \<Rightarrow> int \<Rightarrow> nat list \<Rightarrow> error + nat option" where
  "capture_choice g pl roll [] = Inr None"
| "capture_choice g pl roll (k # ks) =
     (case capture_dest pl (tokens pl ! k) roll of
        Inl e \<Rightarrow> Inl e
      | Inr dest \<Rightarrow>
          if dest < OUTER_TRACK then
            (case position_is_safe dest (Some (idx pl)) of
               Inl e \<Rightarrow> Inl e
             | Inr safe \<Rightarrow>
                 if \<not> safe \<and> opponent_at g pl dest then Inr (Some k)
                 else capture_choice g pl roll ks)
          else capture_choice g pl roll ks)"

text \<open>Step 4: the sort key, and the stable descending sort of \<^verbatim>\<open>reverse=True\<close>.\<close>

definition progress_key :: "token \<Rightarrow> int" where
  "progress_key x = (if position x \<ge> 0 then position x else - 1)"

definition cpu_choice :: "game \<Rightarrow> player \<Rightarrow> int \<Rightarrow> nat list \<Rightarrow> error + nat option" where
  "cpu_choice g pl roll movable =
     (case find (\<lambda>k. finishing_test (tokens pl ! k) roll) movable of
        Some k \<Rightarrow> Inr (Some k)
      | None \<Rightarrow>
         (case capture_choice g pl roll movable of
            Inl e \<Rightarrow> Inl e
          | Inr (Some k) \<Rightarrow> Inr (Some k)
          | Inr None \<Rightarrow>
             (case find (\<lambda>k. is_in_yard (tokens pl ! k)) movable of
                Some k \<Rightarrow> Inr (Some k)
              | None \<Rightarrow>
                 (case sort_key (\<lambda>k. - progress_key (tokens pl ! k)) movable of
                    [] \<Rightarrow> Inl IndexError
                  | k # _ \<Rightarrow> Inr (Some k)))))"

text \<open>
  A line typed at the prompt, as the loop classifies it, in the order of its tests:
  \<^verbatim>\<open>p\<close> after \<^verbatim>\<open>strip().lower()\<close>; a line for which \<^verbatim>\<open>isdigit()\<close> is false; a line
  for which \<^verbatim>\<open>isdigit()\<close> is true but which \<^verbatim>\<open>int\<close> rejects (a superscript two, for
  instance), where \<^verbatim>\<open>int(choice)\<close> raises \<^verbatim>\<open>ValueError\<close>; or a number. The lines not
  yet read are threaded through; reading past the last one is the \<^verbatim>\<open>EOFError\<close> of
  \<^verbatim>\<open>input\<close>.
\<close>

datatype answer = Pass | NotDigit | DigitNotInt | Index nat

fun human_choice :: "player \<Rightarrow> int \<Rightarrow> answer list \<Rightarrow> error + (nat option \<times> answer list)" where
  "human_choice pl roll [] = Inl EOFError"
| "human_choice pl roll (Pass # rest) = Inr (None, rest)"
| "human_choice pl roll (NotDigit # rest) = human_choice pl roll rest"
| "human_choice pl roll (DigitNotInt # rest) = Inl ValueError"
| "human_choice pl roll (Index ci # rest) =
     (if ci \<ge> TOKENS_PER_PLAYER then human_choice pl roll rest
      else if ci \<ge> length (tokens pl) then Inl IndexError
      else (case can_move_token pl (tokens pl ! ci) roll of
              Inl e \<Rightarrow> Inl e
            | Inr False \<Rightarrow> human_choice pl roll rest
            | Inr True \<Rightarrow> Inr (Some ci, rest)))"

definition select_token_for_move ::
    "game \<Rightarrow> nat \<Rightarrow> int \<Rightarrow> answer list \<Rightarrow> error + (nat option \<times> answer list)" where
  "select_token_for_move g p roll answers =
     (let pl = players g ! p in
      case movable_tokens pl roll of
        Inl e \<Rightarrow> Inl e
      | Inr movable \<Rightarrow>
          if movable = [] then Inr (None, answers)
          else if is_cpu pl then
            (case cpu_choice g pl roll movable of
               Inl e \<Rightarrow> Inl e
             | Inr c \<Rightarrow> Inr (c, answers))
          else human_choice pl roll answers)"

subsection \<open>The game loop\<close>

text \<open>
  \<^verbatim>\<open>self.turn = (self.turn + 1) % self.num_players\<close>. The statement only runs inside
  the loop, whose condition \<^verbatim>\<open>len(winner_order) < num_players - 1\<close> makes
  \<open>num_players\<close> at least 2, so the modulus is never 0.
\<close>

definition advance_turn :: "game \<Rightarrow> game" where
  "advance_turn g = g\<lparr>turn := (turn g + 1) mod num_players g\<rparr>"

text \<open>The branch of the loop body for a player whose tokens are all finished.\<close>

definition skip_finished :: "game \<Rightarrow> game" where
  "skip_finished g =
     advance_turn
       (if turn g \<notin> set (winner_order g)
        then g\<lparr>winner_order := winner_order g @ [turn g]\<rparr> else g)"

text \<open>
  The rest of the loop body, from the roll of the die on: \<open>roll\<close> is what
  \<^verbatim>\<open>roll_dice\<close> returned.
\<close>

definition take_turn :: "game \<Rightarrow> int \<Rightarrow> answer list \<Rightarrow> error + (game \<times> answer list)" where
  "take_turn g roll answers =
     (let p = turn g; pl = players g ! p in
      case any_moves_available pl roll of
        Inl e \<Rightarrow> Inl e
      | Inr False \<Rightarrow>
          let extra_turn = (roll = 6)
          in Inr (if \<not> extra_turn then advance_turn g else g, answers)
      | Inr True \<Rightarrow>
          (case select_token_for_move g p roll answers of
             Inl e \<Rightarrow> Inl e
           | Inr (None, answers') \<Rightarrow> Inr (advance_turn g, answers')
           | Inr (Some k, answers') \<Rightarrow>
               (case move_token g p k roll of
                  Inl e \<Rightarrow> Inl e
                | Inr g1 \<Rightarrow>
                    let g2 = (if all_finished (players g1 ! p) \<and> p \<notin> set (winner_order g1)
                              then g1\<lparr>winner_order := winner_order g1 @ [p]\<rparr> else g1);
                        extra_turn = (roll = 6)
                    in Inr (if \<not> extra_turn then advance_turn g2 else g2, answers'))))"

text \<open>
  The \<^verbatim>\<open>while\<close> loop of \<^verbatim>\<open>play\<close>. The die is a function from the number of rolls made
  so far to the value rolled. The loop need not end (nobody leaves the yard while no 6 is
  rolled): not returning is \<open>None\<close>.
\<close>

partial_function (option) play_loop ::
    "game \<Rightarrow> (nat \<Rightarrow> int) \<Rightarrow> nat \<Rightarrow> answer list \<Rightarrow> (error + game) option" where
  "play_loop g dice n answers =
     (if int (length (winner_order g)) < int (num_players g) - 1 then
        if turn g \<ge> length (players g) then Some (Inl IndexError)
        else if all_finished (players g ! turn g) then
          play_loop (skip_finished g) dice n answers
        else
          (case take_turn g (dice n) answers of
             Inl e \<Rightarrow> Some (Inl e)
           | Inr (g', answers') \<Rightarrow> play_loop g' dice (Suc n) answers')
      else Some (Inr g))"

declare play_loop.simps [code]

text \<open>After the loop: every player not yet ranked is appended, in roster order.\<close>

definition append_remaining :: "game \<Rightarrow> game" where
  "append_remaining g =
     fold (\<lambda>p h. if p \<notin> set (winner_order h)
                 then h\<lparr>winner_order := winner_order h @ [p]\<rparr> else h)
          [0..<length (players g)] g"

definition play :: "game \<Rightarrow> (nat \<Rightarrow> int) \<Rightarrow> answer list \<Rightarrow> (error + game) option" where
  "play g dice answers =
     (case play_loop g dice 0 answers of
        None \<Rightarrow> None
      | Some (Inl e) \<Rightarrow> Some (Inl e)
      | Some (Inr g') \<Rightarrow> Some (Inr (append_remaining g')))"

subsection \<open>Tokens by address, invariants, and sequences of moves\<close>

definition token_at :: "game \<Rightarrow> nat \<Rightarrow> nat \<Rightarrow> token" where
  "token_at g p k = tokens (players g ! p) ! k"

text \<open>The roster as the constructor builds it: player \<open>i\<close> has \<open>idx = i\<close>, at most 4 players.\<close>

definition roster_ok :: "game \<Rightarrow> bool" where
  "roster_ok g \<longleftrightarrow>
     map idx (players g) = [0..<length (players g)] \<and> length (players g) \<le> 4"

text \<open>The token invariant of the data model.\<close>

definition token_ok :: "token \<Rightarrow> bool" where
  "token_ok t \<longleftrightarrow>
     (finished t \<longrightarrow> position t = OUTER_TRACK + HOME_STRETCH - 1) \<and>
     (position t = - 1 \<longrightarrow> \<not> finished t)"

definition tokens_ok :: "game \<Rightarrow> bool" where
  "tokens_ok g \<longleftrightarrow> list_all (\<lambda>q. list_all token_ok (tokens q)) (players g)"

text \<open>The stronger invariant of play: coordinates stay in range, and a token is finished
  exactly on the last square of the stretch.\<close>

definition token_inv :: "token \<Rightarrow> bool" where
  "token_inv t \<longleftrightarrow>
     - 1 \<le> position t \<and> position t \<le> OUTER_TRACK + HOME_STRETCH - 1 \<and>
     (finished t \<longleftrightarrow> position t = OUTER_TRACK + HOME_STRETCH - 1)"

definition tokens_inv :: "game \<Rightarrow> bool" where
  "tokens_inv g \<longleftrightarrow> list_all (\<lambda>q. list_all token_inv (tokens q)) (players g)"

text \<open>Every finished token of \<open>g\<close> is the same token in \<open>g'\<close>, and the shape is kept.\<close>

definition finished_kept :: "game \<Rightarrow> game \<Rightarrow> bool" where
  "finished_kept g g' \<longleftrightarrow>
     length (players g') = length (players g) \<and>
     (\<forall>q < length (players g).
        length (tokens (players g' ! q)) = length (tokens (players g ! q)) \<and>
        (\<forall>j < length (tokens (players g ! q)).
           finished (token_at g q j) \<longrightarrow> token_at g' q j = token_at g q j))"

text \<open>One legal move: a roll of the die for which \<^verbatim>\<open>can_move_token\<close> holds, applied by
  \<^verbatim>\<open>move_token\<close>.\<close>

definition legal_move :: "game \<Rightarrow> nat \<Rightarrow> nat \<Rightarrow> int \<Rightarrow> game \<Rightarrow> bool" where
  "legal_move g p k roll g' \<longleftrightarrow>
     p < length (players g) \<and> k < length (tokens (players g ! p)) \<and>
     1 \<le> roll \<and> roll \<le> 6 \<and>
     can_move_token (players g ! p) (token_at g p k) roll = Inr True \<and>
     move_token g p k roll = Inr g'"

fun legal_moves :: "game \<Rightarrow> (nat \<times> nat \<times> int) list \<Rightarrow> game option" where
  "legal_moves g [] = Some g"
| "legal_moves g ((p, k, roll) # ms) =
     (case move_token g p k roll of
        Inl e \<Rightarrow> None
      | Inr g' \<Rightarrow> if legal_move g p k roll g' then legal_moves g' ms else None)"

text \<open>One run of the body of the loop of \<^verbatim>\<open>play\<close>, for some roll and some typed lines.\<close>

inductive loop_step :: "game \<Rightarrow> game \<Rightarrow> bool" where
  skip: "int (length (winner_order g)) < int (num_players g) - 1 \<Longrightarrow>
         turn g < length (players g) \<Longrightarrow> all_finished (players g ! turn g) \<Longrightarrow>
         loop_step g (skip_finished g)"
| roll: "int (length (winner_order g)) < int (num_players g) - 1 \<Longrightarrow>
         turn g < length (players g) \<Longrightarrow> \<not> all_finished (players g ! turn g) \<Longrightarrow>
         take_turn g roll answers = Inr (g', answers') \<Longrightarrow>
         loop_step g g'"

text \<open>What holds of the ranking list and the turn cursor while the loop runs.\<close>

definition ranking_ok :: "game \<Rightarrow> bool" where
  "ranking_ok g \<longleftrightarrow>
     num_players g = length (players g) \<and> turn g < num_players g \<and>
     distinct (winner_order g) \<and> set (winner_order g) \<subseteq> {0..<num_players g} \<and>
     int (length (winner_order g)) \<le> int (num_players g) - 1"

subsection \<open>Concrete positions\<close>

text \<open>
  The game as constructed, a token put on a given coordinate, and a die that shows the
  listed values (and 1 ever after): the vocabulary of the concrete scenarios below.
\<close>

definition new_game :: "nat \<Rightarrow> bool list option \<Rightarrow> game" where
  "new_game n cpu_players =
     (case Game n cpu_players of
        Inr g \<Rightarrow> g
      | Inl e \<Rightarrow> \<lparr>num_players = 0, players = [], turn = 0, winner_order = []\<rparr>)"

definition place :: "game \<Rightarrow> nat \<Rightarrow> nat \<Rightarrow> int \<Rightarrow> game" where
  "place g p k pos = set_token g p k ((token_at g p k)\<lparr>position := pos\<rparr>)"

definition dice_of :: "int list \<Rightarrow> nat \<Rightarrow> int" where
  "dice_of xs i = (if i < length xs then xs ! i else 1)"

subsection \<open>The legality predicate in the words of the specification\<close>

text \<open>
  These definitions follow the specification's text (section 3 and 4.1), not the code:
  the start coordinates are ``evenly spaced by TRACK\_LENGTH/4'', the entry is
  ``(start - 1) mod TRACK\_LENGTH''. They are compared with the code below.
\<close>

definition TRACK_LENGTH :: int where
  "TRACK_LENGTH = 52"

definition STRETCH_LENGTH :: int where
  "STRETCH_LENGTH = 6"

definition spec_start :: "nat \<Rightarrow> int" where
  "spec_start p = int p * (TRACK_LENGTH div 4)"

definition spec_entry :: "nat \<Rightarrow> int" where
  "spec_entry p = (spec_start p - 1) mod TRACK_LENGTH"

definition distanceToEntry :: "nat \<Rightarrow> int \<Rightarrow> int" where
  "distanceToEntry p pos =
     (if 0 \<le> pos \<and> pos < TRACK_LENGTH then
        (if pos \<le> spec_entry p then spec_entry p - pos
         else TRACK_LENGTH - (pos - spec_entry p))
      else 0)"

definition canAdvance :: "nat \<Rightarrow> token \<Rightarrow> int \<Rightarrow> bool" where
  "canAdvance p tok roll \<longleftrightarrow>
     (if finished tok then False
      else if position tok = - 1 then roll = 6
      else if 0 \<le> position tok \<and> position tok < TRACK_LENGTH then
        (let d = distanceToEntry p (position tok); over = roll - d - 1
         in roll \<le> d \<or> over < STRETCH_LENGTH)
      else if TRACK_LENGTH \<le> position tok \<and> position tok < TRACK_LENGTH + STRETCH_LENGTH then
        (position tok - TRACK_LENGTH) + roll < STRETCH_LENGTH
      else False)"

section \<open>Properties\<close>

subsection \<open>Board geometry\<close>

lemma START_SQUARE_valid: "p < 4 \<Longrightarrow> START_SQUARE p = Some (13 * int p)"
proof -
  assume "p < 4"
  then have "p = 0 \<or> p = 1 \<or> p = 2 \<or> p = 3" by arith
  then show ?thesis by (auto simp: START_SQUARE_def)
qed

lemma START_SQUARE_dom: "START_SQUARE p = Some s \<Longrightarrow> p < 4"
  by (auto simp: START_SQUARE_def split: if_splits)

lemma START_SQUARE_Some_iff: "START_SQUARE p = Some s \<longleftrightarrow> p < 4 \<and> s = 13 * int p"
  using START_SQUARE_valid START_SQUARE_dom by fastforce

lemma START_SQUARE_safe: "START_SQUARE p = Some s \<Longrightarrow> s \<in> SAFE_SQUARES"
  by (auto simp: START_SQUARE_def SAFE_SQUARES_def split: if_splits)

lemma subscript_START_SQUARE: "p < 4 \<Longrightarrow> subscript START_SQUARE p = Inr (13 * int p)"
  by (simp add: subscript_def START_SQUARE_valid)

lemma subscript_HOME_ENTRY:
  "p < 4 \<Longrightarrow> subscript HOME_ENTRY p = Inr ((13 * int p - 1) mod 52)"
  by (simp add: subscript_def HOME_ENTRY_def START_SQUARE_valid OUTER_TRACK_def)

lemma entry_range: "p < 4 \<Longrightarrow> 12 \<le> (13 * int p - 1) mod 52 \<and> (13 * int p - 1) mod 52 \<le> 51"
proof -
  assume "p < 4"
  then have "p = 0 \<or> p = 1 \<or> p = 2 \<or> p = 3" by arith
  then show ?thesis by auto
qed

text \<open>
  Claim C6. For a player index \<open>p\<close> of the roster (a key of \<^verbatim>\<open>START_SQUARE\<close>) with
  \<open>entry = (start p - 1) mod OUTER_TRACK\<close>, \<^verbatim>\<open>local_distance_to_home_entry\<close> returns
  \<open>entry - pos\<close> for a track position at or before the entry, \<open>OUTER_TRACK - (pos - entry)\<close>
  for a track position past it (a positive number, the circular distance
  \<open>(entry - pos) mod OUTER_TRACK\<close>), and 0 off the track.
\<close>

theorem local_distance_to_home_entry_circular:
  assumes "START_SQUARE p = Some start" and "entry = (start - 1) mod OUTER_TRACK"
  shows "(0 \<le> pos \<and> pos < OUTER_TRACK \<and> pos \<le> entry \<longrightarrow>
            local_distance_to_home_entry p pos = Inr (entry - pos))
       \<and> (0 \<le> pos \<and> pos < OUTER_TRACK \<and> entry < pos \<longrightarrow>
            local_distance_to_home_entry p pos = Inr (OUTER_TRACK - (pos - entry))
            \<and> 0 < OUTER_TRACK - (pos - entry))
       \<and> (pos < 0 \<or> OUTER_TRACK \<le> pos \<longrightarrow> local_distance_to_home_entry p pos = Inr 0)
       \<and> (0 \<le> pos \<and> pos < OUTER_TRACK \<longrightarrow>
            local_distance_to_home_entry p pos = Inr ((entry - pos) mod OUTER_TRACK))"
proof -
  from assms(1) have p: "p < 4" and s: "start = 13 * int p"
    by (simp_all add: START_SQUARE_Some_iff)
  have e: "entry = (13 * int p - 1) mod 52"
    using assms(2) s by (simp add: OUTER_TRACK_def)
  have r: "12 \<le> entry" "entry \<le> 51"
    using entry_range [OF p] e by simp_all
  have h: "subscript HOME_ENTRY p = Inr entry"
    using subscript_HOME_ENTRY [OF p] e by simp
  have m1: "0 \<le> pos \<Longrightarrow> pos \<le> entry \<Longrightarrow> (entry - pos) mod 52 = entry - pos"
    using r by simp
  have m2: "pos < 52 \<Longrightarrow> entry < pos \<Longrightarrow> (entry - pos) mod 52 = 52 - (pos - entry)"
  proof -
    assume a: "pos < 52" "entry < pos"
    have "(entry - pos) mod 52 = (entry - pos + 52) mod 52" by simp
    also have "\<dots> = entry - pos + 52" using a r by (intro mod_pos_pos_trivial) auto
    finally show ?thesis by simp
  qed
  show ?thesis
    using r m1 m2 by (auto simp: local_distance_to_home_entry_def h OUTER_TRACK_def)
qed

theorem local_distance_to_home_entry_circular_witness:
  "START_SQUARE 1 = Some 13 \<and> (12::int) = (13 - 1) mod OUTER_TRACK
   \<and> local_distance_to_home_entry 1 5 = Inr 7
   \<and> local_distance_to_home_entry 1 20 = Inr 44
   \<and> local_distance_to_home_entry 1 60 = Inr 0"
  using local_distance_to_home_entry_circular [of 1 13 12 5]
        local_distance_to_home_entry_circular [of 1 13 12 20]
        local_distance_to_home_entry_circular [of 1 13 12 60]
  by (simp add: START_SQUARE_def OUTER_TRACK_def)

lemma distanceToEntry_refines:
  "p < 4 \<Longrightarrow> local_distance_to_home_entry p pos = Inr (distanceToEntry p pos)"
  by (auto simp: local_distance_to_home_entry_def distanceToEntry_def subscript_HOME_ENTRY
      spec_entry_def spec_start_def TRACK_LENGTH_def OUTER_TRACK_def mult.commute)

text \<open>
  Claim C5. For every player of the roster, every token and every roll in 1..6,
  \<^verbatim>\<open>can_move_token\<close> returns the value of the specification's legality predicate
  \<open>canAdvance\<close>: never for a finished token, only on a 6 from the yard, on the track when
  the roll stays on the track or overshoots the entry by fewer than \<open>STRETCH_LENGTH\<close>
  squares, and in the stretch when the relative index plus the roll is below
  \<open>STRETCH_LENGTH\<close>.
\<close>

theorem can_move_token_refines_canAdvance:
  assumes "idx pl < 4" and "1 \<le> roll" and "roll \<le> 6"
  shows "can_move_token pl tok roll = Inr (canAdvance (idx pl) tok roll)"
  using assms
  by (auto simp: can_move_token_def canAdvance_def distanceToEntry_refines is_in_yard_def
      Let_def TRACK_LENGTH_def STRETCH_LENGTH_def OUTER_TRACK_def HOME_STRETCH_def)


theorem can_move_token_refines_canAdvance_witness:
  "idx \<lparr>idx = 1, name = ''Player-2'', color = ''Green'', tokens = [], is_cpu = True\<rparr> < 4
   \<and> (1::int) \<le> 6 \<and> (6::int) \<le> 6
   \<and> can_move_token \<lparr>idx = 1, name = ''Player-2'', color = ''Green'', tokens = [], is_cpu = True\<rparr>
        \<lparr>player_idx = 1, token_idx = 0, position = 10, finished = False\<rparr> 6 = Inr True
   \<and> can_move_token \<lparr>idx = 1, name = ''Player-2'', color = ''Green'', tokens = [], is_cpu = True\<rparr>
        \<lparr>player_idx = 1, token_idx = 0, position = 53, finished = False\<rparr> 5 = Inr False"
  using can_move_token_refines_canAdvance
          [of "\<lparr>idx = 1, name = ''Player-2'', color = ''Green'', tokens = [], is_cpu = True\<rparr>" 6
              "\<lparr>player_idx = 1, token_idx = 0, position = 10, finished = False\<rparr>"]
        can_move_token_refines_canAdvance
          [of "\<lparr>idx = 1, name = ''Player-2'', color = ''Green'', tokens = [], is_cpu = True\<rparr>" 5
              "\<lparr>player_idx = 1, token_idx = 0, position = 53, finished = False\<rparr>"]
  by (simp add: canAdvance_def distanceToEntry_def spec_entry_def spec_start_def
      TRACK_LENGTH_def STRETCH_LENGTH_def)

lemma position_is_safe_SAFE:
  "pos \<in> SAFE_SQUARES \<Longrightarrow> position_is_safe pos pidx = Inr True"
  by (auto simp: position_is_safe_def SAFE_SQUARES_def OUTER_TRACK_def)

lemma position_is_safe_start:
  "START_SQUARE p = Some s \<Longrightarrow> position_is_safe s pidx = Inr True"
  by (rule position_is_safe_SAFE) (rule START_SQUARE_safe)

lemma position_is_safe_None_iff:
  "position_is_safe pos None = Inr (pos \<in> SAFE_SQUARES)"
  by (auto simp: position_is_safe_def SAFE_SQUARES_def OUTER_TRACK_def)

lemma position_is_safe_valid:
  "p < 4 \<Longrightarrow> position_is_safe pos (Some p) = Inr (pos \<in> SAFE_SQUARES)"
  using START_SQUARE_safe [of p "13 * int p"]
  by (auto simp: position_is_safe_def subscript_START_SQUARE START_SQUARE_valid
      SAFE_SQUARES_def OUTER_TRACK_def)

text \<open>Reading the state after a write.\<close>

lemma players_set_token_length [simp]: "length (players (set_token g p k t)) = length (players g)"
  by (simp add: set_token_def)

lemma players_set_token_other:
  "q \<noteq> p \<Longrightarrow> players (set_token g p k t) ! q = players g ! q"
  by (simp add: set_token_def)

lemma players_set_token_same:
  "p < length (players g) \<Longrightarrow>
   players (set_token g p k t) ! p = (players g ! p)\<lparr>tokens := (tokens (players g ! p))[k := t]\<rparr>"
  by (simp add: set_token_def)

lemma idx_set_token [simp]:
  "q < length (players g) \<Longrightarrow> idx (players (set_token g p k t) ! q) = idx (players g ! q)"
  by (cases "q = p") (simp_all add: players_set_token_other players_set_token_same)

lemma tokens_set_token_length [simp]:
  "q < length (players g) \<Longrightarrow>
   length (tokens (players (set_token g p k t) ! q)) = length (tokens (players g ! q))"
  by (cases "q = p") (simp_all add: players_set_token_other players_set_token_same)

lemma token_at_set_token:
  "q < length (players g) \<Longrightarrow> j < length (tokens (players g ! q)) \<Longrightarrow>
   token_at (set_token g p k t) q j = (if q = p \<and> j = k then t else token_at g q j)"
  by (cases "q = p")
     (auto simp: token_at_def players_set_token_other players_set_token_same)

lemma set_token_fields [simp]:
  "num_players (set_token g p k t) = num_players g"
  "turn (set_token g p k t) = turn g"
  "winner_order (set_token g p k t) = winner_order g"
  by (simp_all add: set_token_def)

lemma capture_all_fields [simp]:
  "num_players (capture_all g pl pos) = num_players g"
  "turn (capture_all g pl pos) = turn g"
  "winner_order (capture_all g pl pos) = winner_order g"
  "length (players (capture_all g pl pos)) = length (players g)"
  by (simp_all add: capture_all_def)

lemma players_capture_all:
  "q < length (players g) \<Longrightarrow>
   players (capture_all g pl pos) ! q =
     (if idx (players g ! q) = idx pl then players g ! q
      else (players g ! q)\<lparr>tokens := map (capture_token pos) (tokens (players g ! q))\<rparr>)"
  by (simp add: capture_all_def)

lemma idx_capture_all [simp]:
  "q < length (players g) \<Longrightarrow> idx (players (capture_all g pl pos) ! q) = idx (players g ! q)"
  by (simp add: players_capture_all)

lemma tokens_capture_all_length [simp]:
  "q < length (players g) \<Longrightarrow>
   length (tokens (players (capture_all g pl pos) ! q)) = length (tokens (players g ! q))"
  by (simp add: players_capture_all)

lemma token_at_capture_all:
  "q < length (players g) \<Longrightarrow> j < length (tokens (players g ! q)) \<Longrightarrow>
   token_at (capture_all g pl pos) q j =
     (if idx (players g ! q) = idx pl then token_at g q j
      else capture_token pos (token_at g q j))"
  by (simp add: token_at_def players_capture_all)

text \<open>What \<^verbatim>\<open>handle_capture\<close> can return.\<close>

lemma handle_capture_cases:
  assumes "handle_capture g pl mt = Inr g'"
  obtains (none) "g' = g"
      "position mt < 0 \<or> OUTER_TRACK \<le> position mt
       \<or> position_is_safe (position mt) (Some (idx pl)) = Inr True"
  | (capture) "g' = capture_all g pl (position mt)"
      "0 \<le> position mt" "position mt < OUTER_TRACK"
      "position_is_safe (position mt) (Some (idx pl)) = Inr False"
  using assms
  by (auto simp: handle_capture_def Let_def split: if_splits sum.splits bool.splits)

lemma handle_capture_safe:
  "position mt \<in> SAFE_SQUARES \<or> START_SQUARE (idx pl) = Some (position mt) \<Longrightarrow>
   handle_capture g pl mt = Inr g"
  by (auto simp: handle_capture_def Let_def position_is_safe_SAFE position_is_safe_start)

text \<open>What \<^verbatim>\<open>move_token\<close> can return, branch by branch.\<close>

lemma move_token_cases:
  assumes "move_token g p k roll = Inr g'"
  obtains
    (yard) s where "p < length (players g)" "k < length (tokens (players g ! p))"
      "is_in_yard (token_at g p k)" "START_SQUARE (idx (players g ! p)) = Some s"
      "handle_capture (set_token g p k ((token_at g p k)\<lparr>position := s\<rparr>)) (players g ! p)
         ((token_at g p k)\<lparr>position := s\<rparr>) = Inr g'"
  | (track) d where "p < length (players g)" "k < length (tokens (players g ! p))"
      "0 \<le> position (token_at g p k)" "position (token_at g p k) < OUTER_TRACK"
      "local_distance_to_home_entry (idx (players g ! p)) (position (token_at g p k)) = Inr d"
      "roll \<le> d"
      "handle_capture
         (set_token g p k
            ((token_at g p k)\<lparr>position := (position (token_at g p k) + roll) mod OUTER_TRACK\<rparr>))
         (players g ! p)
         ((token_at g p k)\<lparr>position := (position (token_at g p k) + roll) mod OUTER_TRACK\<rparr>)
       = Inr g'"
  | (enter) d where "p < length (players g)" "k < length (tokens (players g ! p))"
      "0 \<le> position (token_at g p k)" "position (token_at g p k) < OUTER_TRACK"
      "local_distance_to_home_entry (idx (players g ! p)) (position (token_at g p k)) = Inr d"
      "d < roll" "roll - d - 1 \<noteq> HOME_STRETCH - 1"
      "g' = set_token g p k ((token_at g p k)\<lparr>position := OUTER_TRACK + (roll - d - 1)\<rparr>)"
  | (enter_finish) d where "p < length (players g)" "k < length (tokens (players g ! p))"
      "0 \<le> position (token_at g p k)" "position (token_at g p k) < OUTER_TRACK"
      "local_distance_to_home_entry (idx (players g ! p)) (position (token_at g p k)) = Inr d"
      "d < roll" "roll - d - 1 = HOME_STRETCH - 1"
      "g' = set_token g p k
              ((token_at g p k)\<lparr>position := OUTER_TRACK + (roll - d - 1), finished := True\<rparr>)"
  | (finish) "p < length (players g)" "k < length (tokens (players g ! p))"
      "OUTER_TRACK \<le> position (token_at g p k)"
      "position (token_at g p k) - OUTER_TRACK + roll = HOME_STRETCH - 1"
      "g' = set_token g p k
              ((token_at g p k)\<lparr>position := OUTER_TRACK + (position (token_at g p k) - OUTER_TRACK + roll),
                                finished := True\<rparr>)"
  | (inside) "p < length (players g)" "k < length (tokens (players g ! p))"
      "OUTER_TRACK \<le> position (token_at g p k)"
      "position (token_at g p k) - OUTER_TRACK + roll < HOME_STRETCH - 1"
      "g' = set_token g p k
              ((token_at g p k)\<lparr>position := OUTER_TRACK + (position (token_at g p k) - OUTER_TRACK + roll)\<rparr>)"
  | (overshoot) "p < length (players g)" "k < length (tokens (players g ! p))"
      "OUTER_TRACK \<le> position (token_at g p k)"
      "position (token_at g p k) - OUTER_TRACK + roll > HOME_STRETCH - 1"
      "g' = g"
  | (below) "p < length (players g)" "k < length (tokens (players g ! p))"
      "position (token_at g p k) < - 1" "g' = g"
proof -
  from assms have r: "p < length (players g)" "k < length (tokens (players g ! p))"
    by (auto simp: move_token_def Let_def split: if_splits)
  show ?thesis
  proof (cases "is_in_yard (token_at g p k)")
    case True
    with assms r show ?thesis
      using yard
      by (auto simp: move_token_def Let_def token_at_def subscript_def split: option.splits)
  next
    case ny: False
    show ?thesis
    proof (cases "0 \<le> position (token_at g p k) \<and> position (token_at g p k) < OUTER_TRACK")
      case True
      with assms r ny obtain d where
        d: "local_distance_to_home_entry (idx (players g ! p)) (position (token_at g p k)) = Inr d"
        by (auto simp: move_token_def Let_def token_at_def split: sum.splits)
      show ?thesis
      proof (cases "roll \<le> d")
        case True
        with assms r ny d \<open>0 \<le> position (token_at g p k) \<and> position (token_at g p k) < OUTER_TRACK\<close>
        show ?thesis
          by (intro track [of d]) (auto simp: move_token_def Let_def token_at_def)
      next
        case False
        with assms r ny d \<open>0 \<le> position (token_at g p k) \<and> position (token_at g p k) < OUTER_TRACK\<close>
        show ?thesis
          by (cases "roll - d - 1 = HOME_STRETCH - 1")
             (auto simp: move_token_def Let_def token_at_def
                   intro: enter [of d] enter_finish [of d])
      qed
    next
      case nt: False
      show ?thesis
      proof (cases "OUTER_TRACK \<le> position (token_at g p k)")
        case True
        with assms r ny nt show ?thesis
          using finish inside overshoot
          by (auto simp: move_token_def Let_def token_at_def split: if_splits)
      next
        case False
        with assms r ny nt show ?thesis
          by (intro below) (auto simp: move_token_def Let_def token_at_def is_in_yard_def
              OUTER_TRACK_def split: if_splits)
      qed
    qed
  qed
qed

lemma tokens_ok_iff:
  "tokens_ok g \<longleftrightarrow>
     (\<forall>q < length (players g). \<forall>j < length (tokens (players g ! q)). token_ok (token_at g q j))"
  by (simp add: tokens_ok_def token_at_def list_all_length)

lemma tokens_inv_iff:
  "tokens_inv g \<longleftrightarrow>
     (\<forall>q < length (players g). \<forall>j < length (tokens (players g ! q)). token_inv (token_at g q j))"
  by (simp add: tokens_inv_def token_at_def list_all_length)

lemma roster_ok_idx: "roster_ok g \<Longrightarrow> q < length (players g) \<Longrightarrow> idx (players g ! q) = q"
proof -
  assume a: "roster_ok g" "q < length (players g)"
  then have "map idx (players g) ! q = [0..<length (players g)] ! q"
    by (simp add: roster_ok_def)
  with a(2) show ?thesis by simp
qed

lemma roster_ok_valid: "roster_ok g \<Longrightarrow> q < length (players g) \<Longrightarrow> idx (players g ! q) < 4"
  using roster_ok_idx [of g q] by (simp add: roster_ok_def)

lemma token_ok_capture_token: "token_ok t \<Longrightarrow> token_ok (capture_token pos t)"
  by (simp add: token_ok_def capture_token_def is_on_board_def)

lemma capture_token_finished [simp]: "finished (capture_token pos t) = finished t"
  by (simp add: capture_token_def)

lemma capture_token_of_finished: "finished t \<Longrightarrow> capture_token pos t = t"
  by (simp add: capture_token_def is_on_board_def)

lemma tokens_ok_set_token:
  "tokens_ok g \<Longrightarrow> token_ok t \<Longrightarrow> tokens_ok (set_token g p k t)"
  by (simp add: tokens_ok_iff token_at_set_token)

lemma tokens_ok_capture_all: "tokens_ok g \<Longrightarrow> tokens_ok (capture_all g pl pos)"
  by (simp add: tokens_ok_iff token_at_capture_all token_ok_capture_token)

lemma finished_kept_refl: "finished_kept g g"
  by (simp add: finished_kept_def)

lemma finished_kept_trans:
  "finished_kept g g' \<Longrightarrow> finished_kept g' g'' \<Longrightarrow> finished_kept g g''"
  by (simp add: finished_kept_def)

lemma finished_kept_set_token:
  "\<not> finished (token_at g p k) \<Longrightarrow> finished_kept g (set_token g p k t)"
  by (auto simp: finished_kept_def token_at_set_token)

lemma finished_kept_capture_all: "finished_kept g (capture_all g pl pos)"
  by (simp add: finished_kept_def token_at_capture_all capture_token_of_finished)

lemma handle_capture_preserves:
  assumes "handle_capture g pl mt = Inr g'"
  shows "finished_kept g g'" and "tokens_ok g \<Longrightarrow> tokens_ok g'"
  using assms
  by (cases rule: handle_capture_cases;
      simp add: finished_kept_refl finished_kept_capture_all tokens_ok_capture_all)+

lemma token_ok_unfinished:
  "token_ok t \<Longrightarrow> position t \<noteq> OUTER_TRACK + HOME_STRETCH - 1 \<Longrightarrow> \<not> finished t"
  by (auto simp: token_ok_def)

lemma move_token_preserves:
  assumes ok: "tokens_ok g" and roll: "1 \<le> roll" and mv: "move_token g p k roll = Inr g'"
  shows "tokens_ok g' \<and> finished_kept g g'"
  using mv
proof (cases rule: move_token_cases)
  case (yard s)
  let ?t = "(token_at g p k)\<lparr>position := s\<rparr>"
  from ok yard(1,2) have t: "token_ok (token_at g p k)" by (simp add: tokens_ok_iff)
  with yard(3) have nf: "\<not> finished (token_at g p k)"
    by (auto simp: token_ok_def is_in_yard_def)
  then have "token_ok ?t" by (simp add: token_ok_def)
  with ok have "tokens_ok (set_token g p k ?t)" by (rule tokens_ok_set_token)
  moreover from nf have "finished_kept g (set_token g p k ?t)" by (rule finished_kept_set_token)
  ultimately show ?thesis
    using handle_capture_preserves [OF yard(5)] finished_kept_trans by blast
next
  case (track d)
  let ?t = "(token_at g p k)\<lparr>position := (position (token_at g p k) + roll) mod OUTER_TRACK\<rparr>"
  from ok track(1,2) have t: "token_ok (token_at g p k)" by (simp add: tokens_ok_iff)
  with track(3,4) have nf: "\<not> finished (token_at g p k)"
    by (auto simp: token_ok_def OUTER_TRACK_def HOME_STRETCH_def)
  then have "token_ok ?t" by (simp add: token_ok_def)
  with ok have "tokens_ok (set_token g p k ?t)" by (rule tokens_ok_set_token)
  moreover from nf have "finished_kept g (set_token g p k ?t)" by (rule finished_kept_set_token)
  ultimately show ?thesis
    using handle_capture_preserves [OF track(7)] finished_kept_trans by blast
next
  case (enter d)
  from ok enter(1,2) have t: "token_ok (token_at g p k)" by (simp add: tokens_ok_iff)
  with enter(3,4) have nf: "\<not> finished (token_at g p k)"
    by (auto simp: token_ok_def OUTER_TRACK_def HOME_STRETCH_def)
  then have "token_ok ((token_at g p k)\<lparr>position := OUTER_TRACK + (roll - d - 1)\<rparr>)"
    by (simp add: token_ok_def)
  with ok nf enter(8) show ?thesis
    by (simp add: tokens_ok_set_token finished_kept_set_token)
next
  case (enter_finish d)
  from ok enter_finish(1,2) have t: "token_ok (token_at g p k)" by (simp add: tokens_ok_iff)
  with enter_finish(3,4) have nf: "\<not> finished (token_at g p k)"
    by (auto simp: token_ok_def OUTER_TRACK_def HOME_STRETCH_def)
  have "token_ok ((token_at g p k)\<lparr>position := OUTER_TRACK + (roll - d - 1), finished := True\<rparr>)"
    using enter_finish(7) by (simp add: token_ok_def OUTER_TRACK_def HOME_STRETCH_def)
  with ok nf enter_finish(8) show ?thesis
    by (simp add: tokens_ok_set_token finished_kept_set_token)
next
  case finish
  from ok finish(1,2) have t: "token_ok (token_at g p k)" by (simp add: tokens_ok_iff)
  with finish(4) roll have nf: "\<not> finished (token_at g p k)"
    by (auto simp: token_ok_def)
  have "token_ok ((token_at g p k)\<lparr>position := OUTER_TRACK + (position (token_at g p k) - OUTER_TRACK + roll),
                                finished := True\<rparr>)"
    using finish(4) by (simp add: token_ok_def OUTER_TRACK_def HOME_STRETCH_def)
  with ok nf finish(5) show ?thesis
    by (simp add: tokens_ok_set_token finished_kept_set_token)
next
  case inside
  from ok inside(1,2) have t: "token_ok (token_at g p k)" by (simp add: tokens_ok_iff)
  with inside(4) roll have nf: "\<not> finished (token_at g p k)"
    by (auto simp: token_ok_def)
  then have "token_ok ((token_at g p k)\<lparr>position := OUTER_TRACK + (position (token_at g p k) - OUTER_TRACK + roll)\<rparr>)"
    by (simp add: token_ok_def)
  with ok nf inside(5) show ?thesis
    by (simp add: tokens_ok_set_token finished_kept_set_token)
next
  case overshoot
  with ok show ?thesis by (simp add: finished_kept_refl)
next
  case below
  with ok show ?thesis by (simp add: finished_kept_refl)
qed

text \<open>
  Claim C9. Both engine operations, \<^verbatim>\<open>move_token\<close> (for a roll of at least 1) and
  \<^verbatim>\<open>handle_capture\<close>, keep the token invariant (a finished token is on the last
  square of the stretch, a token in the yard is not finished) and leave every finished
  token exactly as it was: the flag is never reset and a finished token is never captured.
\<close>

theorem engine_preserves_token_invariant:
  assumes "tokens_ok g" and "1 \<le> roll"
  shows "(move_token g p k roll = Inr g' \<longrightarrow> tokens_ok g' \<and> finished_kept g g')
       \<and> (handle_capture g pl mt = Inr g'' \<longrightarrow> tokens_ok g'' \<and> finished_kept g g'')"
  using assms move_token_preserves handle_capture_preserves by blast

text \<open>
  Claim C4. \<^verbatim>\<open>handle_capture\<close> changes nothing when the moved token stands on one of
  the 8 safe squares or on the mover's own start square; and after any \<^verbatim>\<open>move_token\<close>
  that lands on such a square every other player is exactly as before, whatever tokens
  stand there.
\<close>

theorem no_capture_on_safe_square:
  "(position mt \<in> SAFE_SQUARES \<or> START_SQUARE (idx pl) = Some (position mt) \<longrightarrow>
      handle_capture g pl mt = Inr g)
   \<and> (move_token g p k roll = Inr g' \<and>
        (position (token_at g' p k) \<in> SAFE_SQUARES
         \<or> START_SQUARE (idx (players g ! p)) = Some (position (token_at g' p k))) \<longrightarrow>
        length (players g') = length (players g) \<and>
        (\<forall>q. q \<noteq> p \<longrightarrow> players g' ! q = players g ! q))"
proof (rule conjI; rule impI)
  assume "position mt \<in> SAFE_SQUARES \<or> START_SQUARE (idx pl) = Some (position mt)"
  then show "handle_capture g pl mt = Inr g" by (rule handle_capture_safe)
next
  assume a: "move_token g p k roll = Inr g' \<and>
        (position (token_at g' p k) \<in> SAFE_SQUARES
         \<or> START_SQUARE (idx (players g ! p)) = Some (position (token_at g' p k)))"
  then have mv: "move_token g p k roll = Inr g'" and
    safe: "position_is_safe (position (token_at g' p k)) (Some (idx (players g ! p))) = Inr True"
    by (auto simp: position_is_safe_SAFE position_is_safe_start)
  have cap: "length (players g') = length (players g) \<and>
             (\<forall>q. q \<noteq> p \<longrightarrow> players g' ! q = players g ! q)"
    if r: "p < length (players g)" "k < length (tokens (players g ! p))"
      and h: "handle_capture (set_token g p k t) (players g ! p) t = Inr g'" for t
    using h
  proof (cases rule: handle_capture_cases)
    case none
    then show ?thesis by (simp add: players_set_token_other)
  next
    case capture
    from r have "token_at g' p k = t"
      by (simp add: capture(1) token_at_capture_all token_at_set_token)
    with safe capture(4) show ?thesis by simp
  qed
  from mv show "length (players g') = length (players g) \<and>
        (\<forall>q. q \<noteq> p \<longrightarrow> players g' ! q = players g ! q)"
    by (cases rule: move_token_cases) (simp_all add: cap players_set_token_other)
qed

text \<open>
  Claim C3. In a game with a well-formed roster whose tokens satisfy the token invariant,
  when \<^verbatim>\<open>move_token\<close> lands the moved token on a square of the shared track that is not
  safe for the mover, every token of every other player is reset to the yard (\<open>-1\<close>, all
  other fields and so the finished flag unchanged) if it stood on exactly that square, and
  is untouched otherwise; so tokens in the yard or in a private stretch are never
  affected, and all co-located tokens are captured.
\<close>

theorem capture_on_unsafe_square:
  assumes "roster_ok g" and "tokens_ok g" and "1 \<le> roll"
    and "move_token g p k roll = Inr g'"
    and "landing = position (token_at g' p k)"
    and "0 \<le> landing" and "landing < OUTER_TRACK"
    and "position_is_safe landing (Some (idx (players g ! p))) = Inr False"
    and "q < length (players g)" and "q \<noteq> p" and "j < length (tokens (players g ! q))"
  shows "token_at g' q j =
           (if position (token_at g q j) = landing
            then (token_at g q j)\<lparr>position := - 1\<rparr> else token_at g q j)"
proof -
  have tq: "token_ok (token_at g q j)"
    using assms(2,9,11) by (simp add: tokens_ok_iff)
  have cap: ?thesis
    if r: "p < length (players g)" "k < length (tokens (players g ! p))"
      and h: "handle_capture (set_token g p k t) (players g ! p) t = Inr g'" for t
    using h
  proof (cases rule: handle_capture_cases)
    case none
    from r have "token_at g' p k = t" by (simp add: none(1) token_at_set_token)
    with none(2) assms(5-8) show ?thesis by auto
  next
    case capture
    from r have t: "token_at g' p k = t"
      by (simp add: capture(1) token_at_capture_all token_at_set_token)
    have "idx (players g ! q) \<noteq> idx (players g ! p)"
      using assms(1,9,10) r(1) by (simp add: roster_ok_idx)
    then have "token_at g' q j = capture_token (position t) (token_at g q j)"
      using assms(9-11) by (simp add: capture(1) token_at_capture_all token_at_set_token)
    moreover have "position (token_at g q j) = landing \<Longrightarrow> is_on_board (token_at g q j)"
      using tq assms(6,7)
      by (auto simp: is_on_board_def token_ok_def OUTER_TRACK_def HOME_STRETCH_def)
    ultimately show ?thesis
      using t assms(5) by (auto simp: capture_token_def)
  qed
  from assms(4) show ?thesis
  proof (cases rule: move_token_cases)
    case (yard s)
    then show ?thesis by (intro cap)
  next
    case (track d)
    then show ?thesis by (intro cap)
  next
    case (enter d)
    then have "position (token_at g' p k) = OUTER_TRACK + (roll - d - 1)"
      by (simp add: token_at_set_token)
    with enter(6) assms(5,7) show ?thesis by simp
  next
    case (enter_finish d)
    then have "position (token_at g' p k) = OUTER_TRACK + (roll - d - 1)"
      by (simp add: token_at_set_token)
    with enter_finish(6) assms(5,7) show ?thesis by simp
  next
    case finish
    then have "position (token_at g' p k) = position (token_at g p k) + roll"
      by (simp add: token_at_set_token)
    with finish(3) assms(3,5,7) show ?thesis by simp
  next
    case inside
    then have "position (token_at g' p k) = position (token_at g p k) + roll"
      by (simp add: token_at_set_token)
    with inside(3) assms(3,5,7) show ?thesis by simp
  next
    case overshoot
    with assms(5,7) show ?thesis by simp
  next
    case below
    with assms(5,6) show ?thesis by simp
  qed
qed

theorem capture_on_unsafe_square_witness:
  "roster_ok (place (place (place (place (new_game 2 None) 0 0 1) 1 0 5) 1 1 5) 1 3 54)
   \<and> tokens_ok (place (place (place (place (new_game 2 None) 0 0 1) 1 0 5) 1 1 5) 1 3 54)
   \<and> move_token (place (place (place (place (new_game 2 None) 0 0 1) 1 0 5) 1 1 5) 1 3 54) 0 0 4
       = Inr (capture_all (place (place (place (place (new_game 2 None) 0 0 5) 1 0 5) 1 1 5) 1 3 54)
                \<lparr>idx = 0, name = ''Player-1'', color = ''Red'', tokens = [], is_cpu = False\<rparr> 5)
   \<and> map (\<lambda>j. position (token_at
        (capture_all (place (place (place (place (new_game 2 None) 0 0 5) 1 0 5) 1 1 5) 1 3 54)
                \<lparr>idx = 0, name = ''Player-1'', color = ''Red'', tokens = [], is_cpu = False\<rparr> 5) 1 j))
       [0, 1, 2, 3] = [- 1, - 1, - 1, 54]"
proof -
  let ?G = "place (place (place (place (new_game 2 None) 0 0 1) 1 0 5) 1 1 5) 1 3 54"
  let ?G' = "capture_all (place (place (place (place (new_game 2 None) 0 0 5) 1 0 5) 1 1 5) 1 3 54)
                \<lparr>idx = 0, name = ''Player-1'', color = ''Red'', tokens = [], is_cpu = False\<rparr> 5"
  have h1: "roster_ok ?G" by code_simp
  have h2: "tokens_ok ?G" by code_simp
  have h3: "(1::int) \<le> 4" by simp
  have h4: "move_token ?G 0 0 4 = Inr ?G'" by code_simp
  have h5: "5 = position (token_at ?G' 0 0)" by code_simp
  have h6: "(0::int) \<le> 5" "5 < OUTER_TRACK" by (simp_all add: OUTER_TRACK_def)
  have h7: "position_is_safe 5 (Some (idx (players ?G ! 0))) = Inr False" by code_simp
  have h8: "1 < length (players ?G)" "(1::nat) \<noteq> 0" by code_simp+
  have h9: "0 < length (tokens (players ?G ! 1))" "1 < length (tokens (players ?G ! 1))"
    "2 < length (tokens (players ?G ! 1))" "3 < length (tokens (players ?G ! 1))" by code_simp+
  have p: "position (token_at ?G 1 0) = 5" "position (token_at ?G 1 1) = 5"
    "position (token_at ?G 1 2) = - 1" "position (token_at ?G 1 3) = 54" by code_simp+
  note c = capture_on_unsafe_square [OF h1 h2 h3 h4 h5 h6 h7 h8]
  have "position (token_at ?G' 1 0) = - 1" using c [OF h9(1)] p by simp
  moreover have "position (token_at ?G' 1 1) = - 1" using c [OF h9(2)] p by simp
  moreover have "position (token_at ?G' 1 2) = - 1" using c [OF h9(3)] p by simp
  moreover have "position (token_at ?G' 1 3) = 54" using c [OF h9(4)] p by simp
  ultimately show ?thesis using h1 h2 h4 by simp
qed

theorem engine_preserves_token_invariant_witness:
  "tokens_ok (set_token (place (place (new_game 2 None) 0 0 1) 1 0 5) 1 3
       \<lparr>player_idx = 1, token_idx = 3, position = 57, finished = True\<rparr>)
   \<and> (1::int) \<le> 4
   \<and> move_token (set_token (place (place (new_game 2 None) 0 0 1) 1 0 5) 1 3
       \<lparr>player_idx = 1, token_idx = 3, position = 57, finished = True\<rparr>) 0 0 4
     = handle_capture (set_token (place (place (new_game 2 None) 0 0 5) 1 0 5) 1 3
         \<lparr>player_idx = 1, token_idx = 3, position = 57, finished = True\<rparr>)
         \<lparr>idx = 0, name = ''Player-1'', color = ''Red'', tokens = [], is_cpu = False\<rparr>
         \<lparr>player_idx = 0, token_idx = 0, position = 5, finished = False\<rparr>
   \<and> move_token (set_token (place (place (new_game 2 None) 0 0 1) 1 0 5) 1 3
       \<lparr>player_idx = 1, token_idx = 3, position = 57, finished = True\<rparr>) 0 0 4
     = Inr (set_token (place (place (new_game 2 None) 0 0 5) 1 0 (- 1)) 1 3
         \<lparr>player_idx = 1, token_idx = 3, position = 57, finished = True\<rparr>)
   \<and> tokens_ok (set_token (place (place (new_game 2 None) 0 0 5) 1 0 (- 1)) 1 3
         \<lparr>player_idx = 1, token_idx = 3, position = 57, finished = True\<rparr>)
   \<and> finished_kept
       (set_token (place (place (new_game 2 None) 0 0 1) 1 0 5) 1 3
         \<lparr>player_idx = 1, token_idx = 3, position = 57, finished = True\<rparr>)
       (set_token (place (place (new_game 2 None) 0 0 5) 1 0 (- 1)) 1 3
         \<lparr>player_idx = 1, token_idx = 3, position = 57, finished = True\<rparr>)"
proof -
  let ?F = "\<lparr>player_idx = 1, token_idx = 3, position = 57, finished = True\<rparr>"
  let ?G = "set_token (place (place (new_game 2 None) 0 0 1) 1 0 5) 1 3 ?F"
  let ?G' = "set_token (place (place (new_game 2 None) 0 0 5) 1 0 (- 1)) 1 3 ?F"
  have h1: "tokens_ok ?G" by code_simp
  have h2: "(1::int) \<le> 4" by simp
  have h3: "move_token ?G 0 0 4 = Inr ?G'" by code_simp
  have h4: "move_token ?G 0 0 4
     = handle_capture (set_token (place (place (new_game 2 None) 0 0 5) 1 0 5) 1 3 ?F)
         \<lparr>idx = 0, name = ''Player-1'', color = ''Red'', tokens = [], is_cpu = False\<rparr>
         \<lparr>player_idx = 0, token_idx = 0, position = 5, finished = False\<rparr>" by code_simp
  from engine_preserves_token_invariant [OF h1 h2, where p = 0 and k = 0 and g' = ?G'] h3
  have "tokens_ok ?G' \<and> finished_kept ?G ?G'" by blast
  with h1 h2 h3 h4 show ?thesis by blast
qed

theorem no_capture_on_safe_square_witness:
  "move_token (place (place (new_game 2 None) 0 0 2) 1 0 8) 0 0 6
     = Inr (place (place (new_game 2 None) 0 0 8) 1 0 8)
   \<and> position (token_at (place (place (new_game 2 None) 0 0 8) 1 0 8) 0 0) \<in> SAFE_SQUARES
   \<and> players (place (place (new_game 2 None) 0 0 8) 1 0 8) ! 1
       = players (place (place (new_game 2 None) 0 0 2) 1 0 8) ! 1
   \<and> position (token_at (place (place (new_game 2 None) 0 0 8) 1 0 8) 1 0) = 8"
proof -
  let ?G = "place (place (new_game 2 None) 0 0 2) 1 0 8"
  let ?G' = "place (place (new_game 2 None) 0 0 8) 1 0 8"
  have h1: "move_token ?G 0 0 6 = Inr ?G'" by code_simp
  have h2: "position (token_at ?G' 0 0) \<in> SAFE_SQUARES" by code_simp
  have h3: "position (token_at ?G' 1 0) = 8" by code_simp
  from no_capture_on_safe_square [where g = ?G and p = 0 and k = 0 and roll = 6 and g' = ?G'] h1 h2
  have "players ?G' ! 1 = players ?G ! 1" by simp
  with h1 h2 h3 show ?thesis by blast
qed

text \<open>
  Claim C10. For every roster index \<open>p\<close>, \<^verbatim>\<open>position_is_safe(pos, p)\<close> equals
  \<^verbatim>\<open>position_is_safe(pos, None)\<close> at every position, since the start squares are
  among the safe squares; and moving a token of player \<open>p\<close> out of the yard puts it on
  \<open>13 * p\<close> and changes no other player, so it captures nothing.
\<close>

theorem start_clause_redundant:
  assumes "p < 4"
  shows "position_is_safe pos (Some p) = position_is_safe pos None
       \<and> (q < length (players g) \<and> idx (players g ! q) = p
          \<and> k < length (tokens (players g ! q)) \<and> is_in_yard (token_at g q k) \<longrightarrow>
            move_token g q k roll
              = Inr (set_token g q k ((token_at g q k)\<lparr>position := 13 * int p\<rparr>))
            \<and> (\<forall>r. r \<noteq> q \<longrightarrow>
                 players (set_token g q k ((token_at g q k)\<lparr>position := 13 * int p\<rparr>)) ! r
                   = players g ! r))"
proof (rule conjI)
  show "position_is_safe pos (Some p) = position_is_safe pos None"
    using assms by (simp add: position_is_safe_valid position_is_safe_None_iff)
next
  have s: "START_SQUARE p = Some (13 * int p)" using assms by (rule START_SQUARE_valid)
  show "q < length (players g) \<and> idx (players g ! q) = p
          \<and> k < length (tokens (players g ! q)) \<and> is_in_yard (token_at g q k) \<longrightarrow>
            move_token g q k roll
              = Inr (set_token g q k ((token_at g q k)\<lparr>position := 13 * int p\<rparr>))
            \<and> (\<forall>r. r \<noteq> q \<longrightarrow>
                 players (set_token g q k ((token_at g q k)\<lparr>position := 13 * int p\<rparr>)) ! r
                   = players g ! r)"
    using s
    by (auto simp: move_token_def Let_def token_at_def subscript_def handle_capture_safe
        players_set_token_other)
qed

theorem start_clause_redundant_witness:
  "(1::nat) < 4
   \<and> position_is_safe 13 (Some 1) = position_is_safe 13 None
   \<and> position_is_safe 14 (Some 1) = position_is_safe 14 None
   \<and> is_in_yard (token_at (place (new_game 2 None) 0 0 13) 1 2)
   \<and> move_token (place (new_game 2 None) 0 0 13) 1 2 6
       = Inr (place (place (new_game 2 None) 0 0 13) 1 2 13)
   \<and> players (place (place (new_game 2 None) 0 0 13) 1 2 13) ! 0
       = players (place (new_game 2 None) 0 0 13) ! 0"
proof -
  let ?G = "place (new_game 2 None) 0 0 13"
  have h0: "(1::nat) < 4" by simp
  have h1: "1 < length (players ?G) \<and> idx (players ?G ! 1) = 1
          \<and> 2 < length (tokens (players ?G ! 1)) \<and> is_in_yard (token_at ?G 1 2)"
    by code_simp
  have e: "set_token ?G 1 2 ((token_at ?G 1 2)\<lparr>position := 13 * int 1\<rparr>) = place ?G 1 2 13"
    by (simp add: place_def)
  have a: "position_is_safe 13 (Some 1) = position_is_safe 13 None"
    using start_clause_redundant [OF h0, where pos = 13] by blast
  have b: "position_is_safe 14 (Some 1) = position_is_safe 14 None"
    using start_clause_redundant [OF h0, where pos = 14] by blast
  have c: "move_token ?G 1 2 6 = Inr (place ?G 1 2 13)
           \<and> players (place ?G 1 2 13) ! 0 = players ?G ! 0"
    using start_clause_redundant [OF h0, where q = 1 and g = ?G and k = 2 and roll = 6] h1
    unfolding e by simp
  from h0 h1 a b c show ?thesis by blast
qed

text \<open>The shape of the state after a move.\<close>

lemma move_token_result:
  assumes "move_token g p k roll = Inr g'"
  shows "p < length (players g) \<and> k < length (tokens (players g ! p)) \<and>
         (g' = g \<or> (\<exists>t. g' = set_token g p k t
                     \<or> (\<exists>c. g' = capture_all (set_token g p k t) (players g ! p) c)))"
proof -
  have cap: "g' = set_token g p k t
             \<or> (\<exists>c. g' = capture_all (set_token g p k t) (players g ! p) c)"
    if "handle_capture (set_token g p k t) (players g ! p) t = Inr g'" for t
    using that by (cases rule: handle_capture_cases) auto
  from assms show ?thesis
    by (cases rule: move_token_cases) (use cap in blast)+
qed

lemma move_token_shape:
  assumes "move_token g p k roll = Inr g'"
  shows "num_players g' = num_players g" and "turn g' = turn g"
    and "winner_order g' = winner_order g"
    and "length (players g') = length (players g)"
    and "q < length (players g) \<Longrightarrow>
           length (tokens (players g' ! q)) = length (tokens (players g ! q))"
    and "q < length (players g) \<Longrightarrow> idx (players g' ! q) = idx (players g ! q)"
  using move_token_result [OF assms] by auto

lemma move_token_others_finished:
  assumes "move_token g p k roll = Inr g'"
    and "q < length (players g)" and "j < length (tokens (players g ! q))"
    and "(q, j) \<noteq> (p, k)"
  shows "finished (token_at g' q j) = finished (token_at g q j)"
  using move_token_result [OF assms(1)] assms(2-)
  by (auto simp: token_at_capture_all token_at_set_token split: if_splits)

text \<open>The invariant of play.\<close>

lemma token_inv_capture_token: "token_inv t \<Longrightarrow> token_inv (capture_token pos t)"
  by (auto simp: token_inv_def capture_token_def is_on_board_def OUTER_TRACK_def HOME_STRETCH_def)

lemma tokens_inv_set_token:
  "tokens_inv g \<Longrightarrow> token_inv t \<Longrightarrow> tokens_inv (set_token g p k t)"
  by (simp add: tokens_inv_iff token_at_set_token)

lemma tokens_inv_capture_all: "tokens_inv g \<Longrightarrow> tokens_inv (capture_all g pl pos)"
  by (simp add: tokens_inv_iff token_at_capture_all token_inv_capture_token)

lemma tokens_inv_handle_capture:
  "handle_capture g pl mt = Inr g' \<Longrightarrow> tokens_inv g \<Longrightarrow> tokens_inv g'"
  by (erule handle_capture_cases) (simp_all add: tokens_inv_capture_all)

lemma legal_move_tokens_inv:
  assumes inv: "tokens_inv g" and lm: "legal_move g p k roll g'"
  shows "tokens_inv g'"
proof -
  from lm have r: "1 \<le> roll" "roll \<le> 6"
    and can: "can_move_token (players g ! p) (token_at g p k) roll = Inr True"
    and mv: "move_token g p k roll = Inr g'"
    by (simp_all add: legal_move_def)
  from can have nf: "\<not> finished (token_at g p k)"
    by (auto simp: can_move_token_def split: if_splits)
  from mv show ?thesis
  proof (cases rule: move_token_cases)
    case (yard s)
    then have "token_inv ((token_at g p k)\<lparr>position := s\<rparr>)"
      using nf by (auto simp: token_inv_def START_SQUARE_Some_iff OUTER_TRACK_def HOME_STRETCH_def)
    with inv yard(5) show ?thesis
      by (blast intro: tokens_inv_handle_capture tokens_inv_set_token)
  next
    case (track d)
    obtain m where m: "m = (position (token_at g p k) + roll) mod OUTER_TRACK"
      and mr: "0 \<le> m" "m < 52"
      by (simp add: OUTER_TRACK_def)
    from mr nf have "token_inv ((token_at g p k)\<lparr>position := m\<rparr>)"
      by (simp add: token_inv_def OUTER_TRACK_def HOME_STRETCH_def)
    then have "token_inv ((token_at g p k)\<lparr>position := (position (token_at g p k) + roll) mod OUTER_TRACK\<rparr>)"
      by (simp only: m)
    with inv track(7) show ?thesis
      by (blast intro: tokens_inv_handle_capture tokens_inv_set_token)
  next
    case (enter d)
    from can enter(3-6) nf have "roll - d - 1 < HOME_STRETCH"
      by (auto simp: can_move_token_def is_in_yard_def Let_def split: if_splits)
    with enter(6,7) nf
    have "token_inv ((token_at g p k)\<lparr>position := OUTER_TRACK + (roll - d - 1)\<rparr>)"
      by (simp add: token_inv_def OUTER_TRACK_def HOME_STRETCH_def)
    with inv enter(8) show ?thesis by (simp add: tokens_inv_set_token)
  next
    case (enter_finish d)
    then have "token_inv ((token_at g p k)\<lparr>position := OUTER_TRACK + (roll - d - 1), finished := True\<rparr>)"
      by (simp add: token_inv_def OUTER_TRACK_def HOME_STRETCH_def)
    with inv enter_finish(8) show ?thesis by (simp add: tokens_inv_set_token)
  next
    case finish
    then have "token_inv ((token_at g p k)\<lparr>position := OUTER_TRACK + (position (token_at g p k) - OUTER_TRACK + roll),
                                finished := True\<rparr>)"
      by (simp add: token_inv_def OUTER_TRACK_def HOME_STRETCH_def)
    with inv finish(5) show ?thesis by (simp add: tokens_inv_set_token)
  next
    case inside
    with r nf
    have "token_inv ((token_at g p k)\<lparr>position := OUTER_TRACK + (position (token_at g p k) - OUTER_TRACK + roll)\<rparr>)"
      by (simp add: token_inv_def OUTER_TRACK_def HOME_STRETCH_def)
    with inv inside(5) show ?thesis by (simp add: tokens_inv_set_token)
  next
    case overshoot
    with inv show ?thesis by simp
  next
    case below
    with inv show ?thesis by simp
  qed
qed

lemma legal_moves_tokens_inv:
  "legal_moves g ms = Some g' \<Longrightarrow> tokens_inv g \<Longrightarrow> tokens_inv g'"
proof (induction ms arbitrary: g)
  case Nil
  then show ?case by simp
next
  case (Cons m ms)
  obtain p k roll where m: "m = (p, k, roll)" by (cases m)
  from Cons.prems(1) obtain g1 where
    "legal_move g p k roll g1" and "legal_moves g1 ms = Some g'"
    by (auto simp: m split: sum.splits if_splits)
  with Cons.IH Cons.prems(2) show ?case
    by (blast intro: legal_move_tokens_inv)
qed

text \<open>The constructor.\<close>

lemma make_players_Inr:
  "make_players is cpus = Inr ps \<Longrightarrow>
     map idx ps = is \<and> (\<forall>i \<in> set is. i < 4) \<and>
     (\<forall>pl \<in> set ps. length (tokens pl) = TOKENS_PER_PLAYER \<and>
        (\<forall>t \<in> set (tokens pl). position t = - 1 \<and> \<not> finished t))"
proof (induction "is" arbitrary: ps)
  case Nil
  then show ?case by simp
next
  case (Cons i "is")
  from Cons.prems obtain pl ps' where
    pl: "Player i (''Player-'' @ [char_of (48 + i + 1)]) (cpus ! i) = Inr pl"
    and ps': "make_players is cpus = Inr ps'" and ps: "ps = pl # ps'"
    by (auto split: if_splits sum.splits)
  from pl have "idx pl = i" "i < 4" "length (tokens pl) = TOKENS_PER_PLAYER"
    "\<forall>t \<in> set (tokens pl). position t = - 1 \<and> \<not> finished t"
    by (auto simp: Player_def COLORS_def Token_def split: if_splits)
  with Cons.IH [OF ps'] ps show ?case by simp
qed

lemma Game_Inr:
  assumes "Game n cpus = Inr g"
  shows "2 \<le> n" and "n \<le> 4" and "num_players g = n" and "length (players g) = n"
    and "turn g = 0" and "winner_order g = []" and "roster_ok g" and "tokens_inv g"
    and "tokens_ok g"
proof -
  from assms obtain cs ps where n: "2 \<le> n" "n \<le> 4"
    and ps: "make_players [0..<n] cs = Inr ps"
    and g: "g = \<lparr>num_players = n, players = ps, turn = 0, winner_order = []\<rparr>"
    by (auto simp: Game_def Let_def split: if_splits sum.splits)
  note m = make_players_Inr [OF ps]
  from m have len: "length ps = n" by (metis length_map length_upt diff_zero)
  show "2 \<le> n" "n \<le> 4" by fact+
  show "num_players g = n" "turn g = 0" "winner_order g = []" by (simp_all add: g)
  show "length (players g) = n" by (simp add: g len)
  show "roster_ok g" using m n len by (simp add: roster_ok_def g)
  show "tokens_inv g" using m
    by (auto simp: tokens_inv_def g list_all_iff token_inv_def OUTER_TRACK_def HOME_STRETCH_def)
  show "tokens_ok g" using m
    by (auto simp: tokens_ok_def g list_all_iff token_ok_def)
qed

text \<open>
  Claim C7. In every state reached from a new game by a sequence of legal moves, every
  token has a coordinate between the yard and the last square of the stretch and is
  finished exactly when it stands on that last square (so no sequence of legal moves
  skips over it); and one more legal move finds the moved token unfinished, leaves it
  finished exactly when it lands on stretch index \<open>HOME_STRETCH - 1\<close>, and changes the
  finished flag of no other token.
\<close>

theorem finished_exactly_on_last_square:
  assumes "Game n cpus = Inr g0" and "legal_moves g0 ms = Some g"
    and "legal_move g p k roll g'"
  shows "tokens_inv g \<and> tokens_inv g'
       \<and> \<not> finished (token_at g p k)
       \<and> (finished (token_at g' p k)
            \<longleftrightarrow> position (token_at g' p k) - OUTER_TRACK = HOME_STRETCH - 1)
       \<and> (\<forall>q j. q < length (players g) \<and> j < length (tokens (players g ! q))
                 \<and> (q, j) \<noteq> (p, k) \<longrightarrow>
               finished (token_at g' q j) = finished (token_at g q j))"
proof -
  from assms(1,2) have inv: "tokens_inv g"
    by (blast intro: legal_moves_tokens_inv Game_Inr(8))
  from inv assms(3) have inv': "tokens_inv g'" by (rule legal_move_tokens_inv)
  from assms(3) have r: "p < length (players g)" "k < length (tokens (players g ! p))"
    and can: "can_move_token (players g ! p) (token_at g p k) roll = Inr True"
    and mv: "move_token g p k roll = Inr g'"
    by (simp_all add: legal_move_def)
  from can have nf: "\<not> finished (token_at g p k)"
    by (auto simp: can_move_token_def split: if_splits)
  from r move_token_shape [OF mv] have "p < length (players g')"
    "k < length (tokens (players g' ! p))" by simp_all
  with inv' have "token_inv (token_at g' p k)" by (simp add: tokens_inv_iff)
  then have "finished (token_at g' p k)
            \<longleftrightarrow> position (token_at g' p k) - OUTER_TRACK = HOME_STRETCH - 1"
    by (auto simp: token_inv_def)
  with inv inv' nf move_token_others_finished [OF mv] show ?thesis by blast
qed

theorem finished_exactly_on_last_square_witness:
  "Game 2 None = Inr (new_game 2 None)
   \<and> legal_moves (new_game 2 None)
        [(0, 0, 6), (0, 0, 6), (0, 0, 6), (0, 0, 6), (0, 0, 6), (0, 0, 6), (0, 0, 6),
         (0, 0, 6), (0, 0, 6), (0, 0, 6)]
       = Some (place (new_game 2 None) 0 0 54)
   \<and> legal_move (place (new_game 2 None) 0 0 54) 0 0 3
        (set_token (new_game 2 None) 0 0
           \<lparr>player_idx = 0, token_idx = 0, position = 57, finished = True\<rparr>)
   \<and> legal_move (place (new_game 2 None) 0 0 54) 0 0 2 (place (new_game 2 None) 0 0 56)
   \<and> \<not> finished (token_at (place (new_game 2 None) 0 0 54) 0 0)
   \<and> finished (token_at (set_token (new_game 2 None) 0 0
           \<lparr>player_idx = 0, token_idx = 0, position = 57, finished = True\<rparr>) 0 0)
   \<and> \<not> finished (token_at (place (new_game 2 None) 0 0 56) 0 0)"
proof -
  let ?ms = "[(0, 0, 6), (0, 0, 6), (0, 0, 6), (0, 0, 6), (0, 0, 6), (0, 0, 6), (0, 0, 6),
         (0, 0, 6), (0, 0, 6), (0::nat, 0::nat, 6::int)]"
  let ?G = "place (new_game 2 None) 0 0 54"
  let ?F = "set_token (new_game 2 None) 0 0
           \<lparr>player_idx = 0, token_idx = 0, position = 57, finished = True\<rparr>"
  let ?S = "place (new_game 2 None) 0 0 56"
  have h1: "Game 2 None = Inr (new_game 2 None)" by code_simp
  have h2: "legal_moves (new_game 2 None) ?ms = Some ?G" by code_simp
  have h3: "legal_move ?G 0 0 3 ?F" by code_simp
  have h4: "legal_move ?G 0 0 2 ?S" by code_simp
  have p: "position (token_at ?F 0 0) = 57" "position (token_at ?S 0 0) = 56" by code_simp+
  from finished_exactly_on_last_square [OF h1 h2 h3] p
  have a: "\<not> finished (token_at ?G 0 0)" "finished (token_at ?F 0 0)"
    by (simp_all add: OUTER_TRACK_def HOME_STRETCH_def)
  from finished_exactly_on_last_square [OF h1 h2 h4] p
  have b: "\<not> finished (token_at ?S 0 0)"
    by (simp add: OUTER_TRACK_def HOME_STRETCH_def)
  from h1 h2 h3 h4 a b show ?thesis by blast
qed

text \<open>The loop body and the ranking list.\<close>

lemma take_turn_shape:
  assumes "take_turn g roll answers = Inr (g', answers')"
  shows "num_players g' = num_players g \<and> length (players g') = length (players g)
       \<and> (turn g' = turn g \<or> turn g' = (turn g + 1) mod num_players g)
       \<and> (winner_order g' = winner_order g
          \<or> (winner_order g' = winner_order g @ [turn g] \<and> turn g \<notin> set (winner_order g)))"
proof (cases "any_moves_available (players g ! turn g) roll")
  case (Inl e)
  with assms show ?thesis by (simp add: take_turn_def)
next
  case (Inr avail)
  show ?thesis
  proof (cases avail)
    case False
    with assms Inr show ?thesis
      by (auto simp: take_turn_def advance_turn_def split: if_splits)
  next
    case True
    show ?thesis
    proof (cases "select_token_for_move g (turn g) roll answers")
      case (Inl e)
      with assms Inr True show ?thesis by (simp add: take_turn_def)
    next
      case sel: (Inr ca)
      obtain c a where ca: "ca = (c, a)" by (cases ca)
      show ?thesis
      proof (cases c)
        case None
        with assms Inr True sel ca show ?thesis
          by (auto simp: take_turn_def advance_turn_def)
      next
        case (Some k)
        with assms Inr True sel ca obtain g1 where
          mv: "move_token g (turn g) k roll = Inr g1"
          by (auto simp: take_turn_def Let_def split: sum.splits)
        note sh = move_token_shape [OF mv]
        from assms Inr True sel ca Some mv sh(1-4) show ?thesis
          by (auto simp: take_turn_def advance_turn_def Let_def split: if_splits)
      qed
    qed
  qed
qed

lemma skip_finished_shape:
  "num_players (skip_finished g) = num_players g \<and>
   length (players (skip_finished g)) = length (players g) \<and>
   turn (skip_finished g) = (turn g + 1) mod num_players g \<and>
   (winner_order (skip_finished g) = winner_order g
    \<or> (winner_order (skip_finished g) = winner_order g @ [turn g]
        \<and> turn g \<notin> set (winner_order g)))"
  by (simp add: skip_finished_def advance_turn_def)

lemma loop_step_shape:
  assumes "loop_step g g'"
  shows "int (length (winner_order g)) < int (num_players g) - 1 \<and>
         num_players g' = num_players g \<and> length (players g') = length (players g)
       \<and> (turn g' = turn g \<or> turn g' = (turn g + 1) mod num_players g)
       \<and> (winner_order g' = winner_order g
          \<or> (winner_order g' = winner_order g @ [turn g] \<and> turn g \<notin> set (winner_order g)))"
  using assms
proof cases
  case skip
  then show ?thesis using skip_finished_shape [of g] by simp
next
  case (roll r answers answers')
  then show ?thesis using take_turn_shape [of g r answers g' answers'] by simp
qed

lemma loop_step_ranking:
  assumes "loop_step g g'" and "ranking_ok g"
  shows "ranking_ok g'"
    and "\<exists>ys. winner_order g' = winner_order g @ ys \<and> length ys \<le> 1"
proof -
  note s = loop_step_shape [OF assms(1)]
  from s have n: "0 < num_players g" by linarith
  then have "(turn g + 1) mod num_players g < num_players g" by simp
  with s assms(2) show "ranking_ok g'"
    by (auto simp: ranking_ok_def)
  from s show "\<exists>ys. winner_order g' = winner_order g @ ys \<and> length ys \<le> 1"
    by auto
qed

lemma loop_steps_ranking:
  assumes "loop_step\<^sup>*\<^sup>* g g'" and "ranking_ok g"
  shows "ranking_ok g' \<and> num_players g' = num_players g
         \<and> (\<exists>ys. winner_order g' = winner_order g @ ys)"
  using assms
proof (induction rule: rtranclp_induct)
  case base
  then show ?case by simp
next
  case (step y z)
  with loop_step_ranking [of y z] loop_step_shape [of y z] show ?case by auto
qed

lemma play_loop_steps_aux:
  "play_loop g dice k answers = Some y \<Longrightarrow>
   \<forall>g'. y = Inr g' \<longrightarrow>
     loop_step\<^sup>*\<^sup>* g g' \<and> \<not> int (length (winner_order g')) < int (num_players g') - 1"
proof (induction g dice k answers y rule: play_loop.raw_induct [rotated, consumes 1])
  case (1 loop g dice k answers y)
  show ?case
  proof (cases "int (length (winner_order g)) < int (num_players g) - 1")
    case False
    with 1(2) show ?thesis by auto
  next
    case guard: True
    show ?thesis
    proof (cases "length (players g) \<le> turn g")
      case True
      with 1(2) guard show ?thesis by auto
    next
      case inrange: False
      show ?thesis
      proof (cases "all_finished (players g ! turn g)")
        case True
        with 1(2) guard inrange have "loop (skip_finished g) dice k answers = Some y" by simp
        from 1(1) [OF this] loop_step.skip [of g] guard inrange True
        show ?thesis by (auto intro: converse_rtranclp_into_rtranclp)
      next
        case False
        show ?thesis
        proof (cases "take_turn g (dice k) answers")
          case (Inl e)
          with 1(2) guard inrange False show ?thesis by auto
        next
          case (Inr ga)
          obtain g1 a1 where ga: "ga = (g1, a1)" by (cases ga)
          with 1(2) guard inrange False Inr
          have "loop g1 dice (Suc k) a1 = Some y" by simp
          from 1(1) [OF this] loop_step.roll [of g "dice k" answers g1 a1]
            guard inrange False Inr ga
          show ?thesis by (auto intro: converse_rtranclp_into_rtranclp)
        qed
      qed
    qed
  qed
qed

lemma play_loop_steps:
  assumes "play_loop g dice k answers = Some (Inr g')"
  shows "loop_step\<^sup>*\<^sup>* g g' \<and> \<not> int (length (winner_order g')) < int (num_players g') - 1"
  using play_loop_steps_aux [OF assms] by blast

lemma play_loop_exit:
  "\<not> int (length (winner_order g)) < int (num_players g) - 1 \<Longrightarrow>
   play_loop g dice k answers = Some (Inr g)"
  by (subst play_loop.simps) simp

text \<open>After the loop.\<close>

lemma append_remaining_fold:
  "distinct xs \<Longrightarrow>
   winner_order
     (fold (\<lambda>p h. if p \<notin> set (winner_order h)
                   then h\<lparr>winner_order := winner_order h @ [p]\<rparr> else h) xs g)
   = winner_order g @ filter (\<lambda>p. p \<notin> set (winner_order g)) xs"
proof (induction xs arbitrary: g)
  case Nil
  then show ?case by simp
next
  case (Cons x xs)
  then have x: "x \<notin> set xs" and d: "distinct xs" by simp_all
  from x have "filter (\<lambda>p. p \<noteq> x \<and> p \<notin> set (winner_order g)) xs
             = filter (\<lambda>p. p \<notin> set (winner_order g)) xs"
    by (intro filter_cong) auto
  with Cons.IH [OF d] show ?case by simp
qed

lemma append_remaining_ranking:
  assumes "ranking_ok g"
  shows "distinct (winner_order (append_remaining g))"
    and "set (winner_order (append_remaining g)) = {0..<num_players g}"
    and "int (length (winner_order g)) = int (num_players g) - 1 \<Longrightarrow>
         \<exists>r. winner_order (append_remaining g) = winner_order g @ [r]"
proof -
  let ?rest = "filter (\<lambda>p. p \<notin> set (winner_order g)) [0..<num_players g]"
  from assms have n: "length (players g) = num_players g"
    and d: "distinct (winner_order g)" and sub: "set (winner_order g) \<subseteq> {0..<num_players g}"
    by (auto simp: ranking_ok_def)
  have w: "winner_order (append_remaining g) = winner_order g @ ?rest"
    by (simp add: append_remaining_def append_remaining_fold n)
  from d show dist: "distinct (winner_order (append_remaining g))"
    by (auto simp: w)
  from sub show st: "set (winner_order (append_remaining g)) = {0..<num_players g}"
    by (auto simp: w)
  assume l: "int (length (winner_order g)) = int (num_players g) - 1"
  from dist have "length (winner_order (append_remaining g))
                  = card (set (winner_order (append_remaining g)))"
    by (simp add: distinct_card)
  with st have "length (winner_order (append_remaining g)) = num_players g" by simp
  with w l have "length ?rest = 1" by simp
  then obtain r where "?rest = [r]"
    by (cases ?rest) auto
  with w show "\<exists>r. winner_order (append_remaining g) = winner_order g @ [r]" by simp
qed

lemma Game_ranking_ok: "Game n cpus = Inr g \<Longrightarrow> ranking_ok g"
  using Game_Inr [of n cpus g] by (simp add: ranking_ok_def)

text \<open>
  Claim C8. In every state that the loop of \<^verbatim>\<open>play\<close> reaches from a new game the
  ranking list is duplicate-free, holds roster indices only and has at most
  \<open>num_players - 1\<close> entries; every run of the loop body only appends to it (at most one
  entry); and when the loop returns the list has exactly \<open>num_players - 1\<close> entries,
  extends the list of every earlier state, and \<^verbatim>\<open>play\<close> appends the one player still
  missing, which makes the final ranking a duplicate-free list of the whole roster:
  \<^verbatim>\<open>play\<close> returns exactly when its loop returns, and then returns the state the loop
  left with the remaining player appended.
\<close>

theorem ranking_invariant:
  assumes "Game n cpus = Inr g0" and "loop_step\<^sup>*\<^sup>* g0 g"
  shows "distinct (winner_order g) \<and> set (winner_order g) \<subseteq> {0..<n}
       \<and> length (winner_order g) \<le> n - 1
       \<and> (\<forall>g'. loop_step g g' \<longrightarrow>
             length (winner_order g) < n - 1 \<and>
             (\<exists>ys. winner_order g' = winner_order g @ ys \<and> length ys \<le> 1))
       \<and> (length (winner_order g) = n - 1 \<longrightarrow> play_loop g dice k answers = Some (Inr g))
       \<and> (\<forall>gl. play_loop g dice k answers = Some (Inr gl) \<longrightarrow>
             loop_step\<^sup>*\<^sup>* g gl \<and> length (winner_order gl) = n - 1
             \<and> (\<exists>ys. winner_order gl = winner_order g @ ys)
             \<and> (\<exists>r. winner_order (append_remaining gl) = winner_order gl @ [r])
             \<and> distinct (winner_order (append_remaining gl))
             \<and> set (winner_order (append_remaining gl)) = {0..<n})
       \<and> (\<forall>gf. play g dice answers = Some (Inr gf) \<longrightarrow>
             (\<exists>gl. play_loop g dice 0 answers = Some (Inr gl) \<and> gf = append_remaining gl))
       \<and> (\<forall>gl. play_loop g dice 0 answers = Some (Inr gl) \<longrightarrow>
             play g dice answers = Some (Inr (append_remaining gl))
             \<and> length (winner_order (append_remaining gl)) = n
             \<and> distinct (winner_order (append_remaining gl))
             \<and> set (winner_order (append_remaining gl)) = {0..<n})
       \<and> (play g dice answers = None \<longleftrightarrow> play_loop g dice 0 answers = None)"
proof -
  note G = Game_Inr [OF assms(1)]
  from assms(1) have "ranking_ok g0" by (rule Game_ranking_ok)
  with assms(2) G(3) have ok: "ranking_ok g" and np: "num_players g = n"
    using loop_steps_ranking [of g0 g] by simp_all
  from ok np have a: "distinct (winner_order g)" "set (winner_order g) \<subseteq> {0..<n}"
    "length (winner_order g) \<le> n - 1"
    by (auto simp: ranking_ok_def)
  have b: "length (winner_order g) < n - 1 \<and>
           (\<exists>ys. winner_order g' = winner_order g @ ys \<and> length ys \<le> 1)"
    if "loop_step g g'" for g'
    using loop_step_ranking(2) [OF that ok] loop_step_shape [OF that] np by auto
  have c: "play_loop g dice k answers = Some (Inr g)" if "length (winner_order g) = n - 1"
    using that np by (intro play_loop_exit) auto
  have d: "loop_step\<^sup>*\<^sup>* g gl \<and> length (winner_order gl) = n - 1
             \<and> (\<exists>ys. winner_order gl = winner_order g @ ys)
             \<and> (\<exists>r. winner_order (append_remaining gl) = winner_order gl @ [r])
             \<and> distinct (winner_order (append_remaining gl))
             \<and> set (winner_order (append_remaining gl)) = {0..<n}"
    if "play_loop g dice k answers = Some (Inr gl)" for gl
  proof -
    note s = play_loop_steps [OF that]
    from s ok np have okl: "ranking_ok gl" and npl: "num_players gl = n"
      and ext: "\<exists>ys. winner_order gl = winner_order g @ ys"
      using loop_steps_ranking [of g gl] by simp_all
    from okl s npl have len: "int (length (winner_order gl)) = int n - 1"
      by (auto simp: ranking_ok_def)
    with G(1) have "length (winner_order gl) = n - 1" by linarith
    with s ext append_remaining_ranking [OF okl] npl len show ?thesis by simp
  qed
  have e: "\<exists>gl. play_loop g dice 0 answers = Some (Inr gl) \<and> gf = append_remaining gl"
    if "play g dice answers = Some (Inr gf)" for gf
    using that by (auto simp: play_def split: option.splits sum.splits)
  have f: "play g dice answers = Some (Inr (append_remaining gl))
             \<and> length (winner_order (append_remaining gl)) = n
             \<and> distinct (winner_order (append_remaining gl))
             \<and> set (winner_order (append_remaining gl)) = {0..<n}"
    if "play_loop g0' dice 0 answers = Some (Inr gl)" and "g0' = g" for g0' gl
  proof -
    note s = play_loop_steps [OF that(1)]
    from s ok np that(2) have okl: "ranking_ok gl" and npl: "num_players gl = n"
      using loop_steps_ranking [of g gl] by simp_all
    note r = append_remaining_ranking(1,2) [OF okl]
    from r(1) have "length (winner_order (append_remaining gl))
                 = card (set (winner_order (append_remaining gl)))"
      by (simp add: distinct_card)
    also have "\<dots> = card {0..<num_players gl}" by (simp only: r(2))
    also have "\<dots> = n" by (simp add: npl)
    finally have "length (winner_order (append_remaining gl)) = n" .
    moreover from that have "play g dice answers = Some (Inr (append_remaining gl))"
      by (simp add: play_def)
    ultimately show ?thesis using r npl by simp
  qed
  have h: "play g dice answers = None \<longleftrightarrow> play_loop g dice 0 answers = None"
    by (auto simp: play_def split: option.splits sum.splits)
  from a b c d e f h show ?thesis by blast
qed

theorem ranking_invariant_witness:
  "Game 2 None = Inr (new_game 2 None)
   \<and> loop_step\<^sup>*\<^sup>* (new_game 2 None) (new_game 2 None)
   \<and> play_loop (new_game 2 None)
        (dice_of (concat (replicate 4 [6, 6, 6, 6, 6, 6, 6, 6, 6, 6, 3, 1]))) 0
        (concat (map (\<lambda>k. replicate 11 (Index k)) [0, 1, 2, 3]))
      = Some (Inr ((fold (\<lambda>k h. set_token h 0 k
                      \<lparr>player_idx = 0, token_idx = k, position = 57, finished = True\<rparr>)
                    [0, 1, 2, 3] (new_game 2 None))
                  \<lparr>turn := 1, winner_order := [0]\<rparr>))
   \<and> winner_order (append_remaining
        ((fold (\<lambda>k h. set_token h 0 k
                      \<lparr>player_idx = 0, token_idx = k, position = 57, finished = True\<rparr>)
                    [0, 1, 2, 3] (new_game 2 None))
                  \<lparr>turn := 1, winner_order := [0]\<rparr>)) = [0, 1]
   \<and> set (winner_order (append_remaining
        ((fold (\<lambda>k h. set_token h 0 k
                      \<lparr>player_idx = 0, token_idx = k, position = 57, finished = True\<rparr>)
                    [0, 1, 2, 3] (new_game 2 None))
                  \<lparr>turn := 1, winner_order := [0]\<rparr>))) = {0..<2}
   \<and> play (new_game 2 None)
        (dice_of (concat (replicate 4 [6, 6, 6, 6, 6, 6, 6, 6, 6, 6, 3, 1])))
        (concat (map (\<lambda>k. replicate 11 (Index k)) [0, 1, 2, 3]))
      = Some (Inr ((fold (\<lambda>k h. set_token h 0 k
                      \<lparr>player_idx = 0, token_idx = k, position = 57, finished = True\<rparr>)
                    [0, 1, 2, 3] (new_game 2 None))
                  \<lparr>turn := 1, winner_order := [0, 1]\<rparr>))"
proof -
  let ?D = "dice_of (concat (replicate 4 [6, 6, 6, 6, 6, 6, 6, 6, 6, 6, 3, 1]))"
  let ?A = "concat (map (\<lambda>k. replicate 11 (Index k)) [0, 1, 2, 3])"
  let ?L = "(fold (\<lambda>k h. set_token h 0 k
                      \<lparr>player_idx = 0, token_idx = k, position = 57, finished = True\<rparr>)
                    [0, 1, 2, 3] (new_game 2 None))
                  \<lparr>turn := 1, winner_order := [0]\<rparr>"
  have h1: "Game 2 None = Inr (new_game 2 None)" by code_simp
  have h2: "loop_step\<^sup>*\<^sup>* (new_game 2 None) (new_game 2 None)" by simp
  have h3: "play_loop (new_game 2 None) ?D 0 ?A = Some (Inr ?L)" by code_simp
  have h4: "winner_order (append_remaining ?L) = [0, 1]" by code_simp
  have h5: "append_remaining ?L
            = (fold (\<lambda>k h. set_token h 0 k
                      \<lparr>player_idx = 0, token_idx = k, position = 57, finished = True\<rparr>)
                    [0, 1, 2, 3] (new_game 2 None))
                  \<lparr>turn := 1, winner_order := [0, 1]\<rparr>" by code_simp
  note r = ranking_invariant [OF h1 h2, where dice = ?D and k = 0 and answers = ?A]
  from r h3 have a: "set (winner_order (append_remaining ?L)) = {0..<2}" by blast
  from r h3 have "play (new_game 2 None) ?D ?A = Some (Inr (append_remaining ?L))" by blast
  then have b: "play (new_game 2 None) ?D ?A
            = Some (Inr ((fold (\<lambda>k h. set_token h 0 k
                      \<lparr>player_idx = 0, token_idx = k, position = 57, finished = True\<rparr>)
                    [0, 1, 2, 3] (new_game 2 None))
                  \<lparr>turn := 1, winner_order := [0, 1]\<rparr>))"
    by (simp only: h5)
  from h1 h2 h3 h4 a b show ?thesis by blast
qed

text \<open>The turn cursor after the rest of the loop body.\<close>

lemma take_turn_cases:
  assumes "take_turn g roll answers = Inr (g', answers')"
  obtains
    (no_move) "any_moves_available (players g ! turn g) roll = Inr False"
      "g' = (if roll \<noteq> 6 then advance_turn g else g)"
  | (pass) "any_moves_available (players g ! turn g) roll = Inr True"
      "select_token_for_move g (turn g) roll answers = Inr (None, answers')"
      "g' = advance_turn g"
  | (moved) k g1 where "any_moves_available (players g ! turn g) roll = Inr True"
      "select_token_for_move g (turn g) roll answers = Inr (Some k, answers')"
      "move_token g (turn g) k roll = Inr g1"
      "turn g' = (if roll \<noteq> 6 then (turn g1 + 1) mod num_players g1 else turn g1)"
  using assms
  by (auto simp: take_turn_def advance_turn_def Let_def
      split: sum.splits bool.splits option.splits prod.splits if_splits)

lemma take_turn_cursor_not_six:
  assumes "take_turn g roll answers = Inr (g', answers')" and "roll \<noteq> 6"
  shows "turn g' = (turn g + 1) mod num_players g"
  using assms(1)
proof (cases rule: take_turn_cases)
  case no_move
  with assms(2) show ?thesis by (simp add: advance_turn_def)
next
  case pass
  then show ?thesis by (simp add: advance_turn_def)
next
  case (moved k g1)
  with assms(2) move_token_shape(1,2) [OF moved(3)] show ?thesis by simp
qed

lemma take_turn_cursor_six_no_move:
  assumes "take_turn g 6 answers = Inr (g', answers')"
    and "any_moves_available (players g ! turn g) 6 = Inr False"
  shows "turn g' = turn g"
  using assms by (simp add: take_turn_def)

lemma take_turn_cursor_six_moved:
  assumes "take_turn g 6 answers = Inr (g', answers')"
    and "select_token_for_move g (turn g) 6 answers = Inr (Some k, rest)"
    and "any_moves_available (players g ! turn g) 6 = Inr True"
  shows "turn g' = turn g"
  using assms(1)
proof (cases rule: take_turn_cases)
  case no_move
  with assms(3) show ?thesis by simp
next
  case pass
  with assms(2) show ?thesis by simp
next
  case (moved k g1)
  with move_token_shape(2) [OF moved(3)] show ?thesis by simp
qed

lemma take_turn_cursor_six_pass:
  assumes "take_turn g 6 answers = Inr (g', answers')"
    and "any_moves_available (players g ! turn g) 6 = Inr True"
    and "select_token_for_move g (turn g) 6 answers = Inr (None, rest)"
  shows "turn g' = (turn g + 1) mod num_players g"
  using assms(1)
proof (cases rule: take_turn_cases)
  case no_move
  with assms(2) show ?thesis by simp
next
  case pass
  then show ?thesis by (simp add: advance_turn_def)
next
  case (moved k g1)
  with assms(3) show ?thesis by simp
qed

text \<open>
  Claim C1, at the input where the code departs from it: a human player with movable
  tokens rolls a 6 and types \<^verbatim>\<open>p\<close>. The cursor advances to the next player, while on
  a 6 with no movable token, and on a 6 with a move made, it stays.
\<close>

theorem pass_on_six_advances_cursor:
  "turn (new_game 2 None) = 0
   \<and> \<not> is_cpu (players (new_game 2 None) ! 0)
   \<and> any_moves_available (players (new_game 2 None) ! 0) 6 = Inr True
   \<and> select_token_for_move (new_game 2 None) 0 6 [Pass] = Inr (None, [])
   \<and> take_turn (new_game 2 None) 6 [Pass] = Inr ((new_game 2 None)\<lparr>turn := 1\<rparr>, [])
   \<and> take_turn (new_game 2 None) 6 [Index 0]
       = Inr (place (new_game 2 None) 0 0 0, [])
   \<and> turn (place (new_game 2 None) 0 0 0) = 0"
  by code_simp

text \<open>Step 1 of the CPU heuristic does prefer a finishing move inside the stretch.\<close>

lemma cpu_choice_finishing_in_stretch:
  assumes "\<exists>k \<in> set movable. finishing_test (tokens pl ! k) roll"
  shows "\<exists>k \<in> set movable. cpu_choice g pl roll movable = Inr (Some k)
           \<and> finishing_test (tokens pl ! k) roll"
proof (cases "find (\<lambda>k. finishing_test (tokens pl ! k) roll) movable")
  case None
  with assms show ?thesis by (auto simp: find_None_iff)
next
  case (Some k)
  then have "k \<in> set movable" "finishing_test (tokens pl ! k) roll"
    by (auto simp: find_Some_iff)
  with Some show ?thesis by (auto simp: cpu_choice_def)
qed

text \<open>
  Claim C2, at the input where the code departs from it: a CPU player has a token on its
  home entry square (51 for player 0) and a token in the yard, and rolls a 6. Moving the
  first token finishes it, yet \<^verbatim>\<open>select_token_for_move\<close> returns the yard token; and
  with a capture available instead, it returns the capturing token.
\<close>

theorem cpu_prefers_bringing_out_to_finishing:
  "legal_moves (new_game 2 (Some [True, True]))
      [(0, 0, 6), (0, 0, 6), (0, 0, 6), (0, 0, 6), (0, 0, 6), (0, 0, 6), (0, 0, 6),
       (0, 0, 6), (0, 0, 6), (0, 0, 3)]
     = Some (place (new_game 2 (Some [True, True])) 0 0 51)
   \<and> is_cpu (players (place (new_game 2 (Some [True, True])) 0 0 51) ! 0)
   \<and> movable_tokens (players (place (new_game 2 (Some [True, True])) 0 0 51) ! 0) 6
       = Inr [0, 1, 2, 3]
   \<and> move_token (place (new_game 2 (Some [True, True])) 0 0 51) 0 0 6
       = Inr (set_token (new_game 2 (Some [True, True])) 0 0
                \<lparr>player_idx = 0, token_idx = 0, position = 57, finished = True\<rparr>)
   \<and> select_token_for_move (place (new_game 2 (Some [True, True])) 0 0 51) 0 6 []
       = Inr (Some 1, [])
   \<and> is_in_yard (token_at (place (new_game 2 (Some [True, True])) 0 0 51) 0 1)
   \<and> select_token_for_move
        (place (place (place (place (place (new_game 2 (Some [True, True])) 0 0 51)
           0 1 1) 0 2 2) 0 3 3) 1 0 7) 0 6 []
       = Inr (Some 1, [])
   \<and> move_token
        (place (place (place (place (place (new_game 2 (Some [True, True])) 0 0 51)
           0 1 1) 0 2 2) 0 3 3) 1 0 7) 0 1 6
       = Inr (place (place (place (place (place (new_game 2 (Some [True, True])) 0 0 51)
           0 1 7) 0 2 2) 0 3 3) 1 0 (- 1))"
  by code_simp

end
